theory Spec2Isabelle
  imports Complex_Main "HOL-Library.Char_ord" "HOL-Library.List_Lexorder"
begin

section \<open>Data model\<close>

text \<open>
  The two functions of \<^verbatim>\<open>utilities.py\<close> work on a pandas DataFrame. The model keeps
  what the functions can observe of it: the row index, and the ordered list of named
  columns, each column a typed sequence of values.

  Scope of the model.
  \<^item> A text value is a list of characters, one \<^typ>\<open>char\<close> per code point, so the model
    covers text whose code points are below 256.
  \<^item> A column has one value kind. An \<^verbatim>\<open>object\<close> column holds text or the missing
    marker; object columns holding other Python objects are outside the model.
  \<^item> A 64-bit float is modelled by the real number it denotes, by the two infinities, or
    by not-a-number, which is pandas' missing marker in a float column. Rounding to the
    nearest representable double, overflow and the sign of zero are not modelled.
  \<^item> Column names of a dataset are pairwise distinct (\<open>wf_dataset\<close> below); with
    repeated names pandas addresses several columns by one name.
  \<^item> The lines printed under \<^verbatim>\<open>verbose\<close> are not modelled: they change no data and
    raise nothing.
\<close>

datatype float64 = Fin real | PInf | NInf | NaN

datatype column =
    ObjectCol "string option list"
  | StringCol "string option list"
  | BoolCol "bool list"
  | BooleanCol "bool option list"
  | IntCol "int list"
  | FloatCol "float64 list"
  | CategoryCol "string list" "string option list"

text \<open>
  \<open>CategoryCol cats vs\<close> is pandas' categorical: the enumerated categories and, per row,
  the label of the row or the missing marker.
\<close>

datatype dtype = Object | String | Bool | Boolean | Int64 | Float64 | Category

fun dtype_of :: "column \<Rightarrow> dtype" where
  "dtype_of (ObjectCol _) = Object"
| "dtype_of (StringCol _) = String"
| "dtype_of (BoolCol _) = Bool"
| "dtype_of (BooleanCol _) = Boolean"
| "dtype_of (IntCol _) = Int64"
| "dtype_of (FloatCol _) = Float64"
| "dtype_of (CategoryCol _ _) = Category"

fun col_length :: "column \<Rightarrow> nat" where
  "col_length (ObjectCol vs) = length vs"
| "col_length (StringCol vs) = length vs"
| "col_length (BoolCol vs) = length vs"
| "col_length (BooleanCol vs) = length vs"
| "col_length (IntCol vs) = length vs"
| "col_length (FloatCol vs) = length vs"
| "col_length (CategoryCol _ vs) = length vs"

type_synonym columns = "(string \<times> column) list"

record 'i dataset =
  index :: "'i list"
  columns :: columns

definition names :: "columns \<Rightarrow> string list" where
  "names cs = map fst cs"

definition wf_dataset :: "'i dataset \<Rightarrow> bool" where
  "wf_dataset ds \<longleftrightarrow>
     distinct (names (columns ds)) \<and>
     list_all (\<lambda>(n, c). col_length c = length (index ds)) (columns ds)"

datatype error = AttributeError | ValueError | KeyError

text \<open>
  \<^verbatim>\<open>dataset[name] = column\<close>: an existing column of this name is overwritten where it
  stands, a new name is appended as the last column.
\<close>

primrec setitem :: "string \<Rightarrow> column \<Rightarrow> columns \<Rightarrow> columns" where
  "setitem k v [] = [(k, v)]"
| "setitem k v (p # ps) = (if fst p = k then (k, v) # ps else p # setitem k v ps)"

section \<open>Float arithmetic\<close>

text \<open>
  The operations follow IEEE 754 on the special values and are exact on the finite ones.
\<close>

fun f_add :: "float64 \<Rightarrow> float64 \<Rightarrow> float64" where
  "f_add NaN _ = NaN"
| "f_add _ NaN = NaN"
| "f_add PInf NInf = NaN"
| "f_add NInf PInf = NaN"
| "f_add PInf _ = PInf"
| "f_add _ PInf = PInf"
| "f_add NInf _ = NInf"
| "f_add _ NInf = NInf"
| "f_add (Fin a) (Fin b) = Fin (a + b)"

fun f_neg :: "float64 \<Rightarrow> float64" where
  "f_neg NaN = NaN"
| "f_neg PInf = NInf"
| "f_neg NInf = PInf"
| "f_neg (Fin a) = Fin (- a)"

definition f_sub :: "float64 \<Rightarrow> float64 \<Rightarrow> float64" where
  "f_sub a b = f_add a (f_neg b)"

definition inf_of_sign :: "bool \<Rightarrow> float64" where
  "inf_of_sign negative = (if negative then NInf else PInf)"

fun is_negative :: "float64 \<Rightarrow> bool" where
  "is_negative (Fin a) = (a < 0)"
| "is_negative NInf = True"
| "is_negative _ = False"

fun f_mul :: "float64 \<Rightarrow> float64 \<Rightarrow> float64" where
  "f_mul NaN _ = NaN"
| "f_mul _ NaN = NaN"
| "f_mul (Fin a) (Fin b) = Fin (a * b)"
| "f_mul (Fin a) b = (if a = 0 then NaN else inf_of_sign ((a < 0) \<noteq> is_negative b))"
| "f_mul a (Fin b) = (if b = 0 then NaN else inf_of_sign (is_negative a \<noteq> (b < 0)))"
| "f_mul a b = inf_of_sign (is_negative a \<noteq> is_negative b)"

text \<open>
  Division: the only divisors of the program are a count and a standard deviation, which
  are never negative, so a zero divisor is the positive zero.
\<close>

fun f_div :: "float64 \<Rightarrow> float64 \<Rightarrow> float64" where
  "f_div NaN _ = NaN"
| "f_div _ NaN = NaN"
| "f_div (Fin a) (Fin b) =
     (if b = 0 then (if a = 0 then NaN else inf_of_sign (a < 0)) else Fin (a / b))"
| "f_div (Fin a) _ = Fin 0"
| "f_div a (Fin b) = inf_of_sign (is_negative a \<noteq> (b < 0))"
| "f_div _ _ = NaN"

fun f_sqrt :: "float64 \<Rightarrow> float64" where
  "f_sqrt (Fin a) = (if a < 0 then NaN else Fin (sqrt a))"
| "f_sqrt PInf = PInf"
| "f_sqrt _ = NaN"

text \<open>\<^verbatim>\<open>np.log\<close>: minus infinity at zero, not-a-number below it.\<close>

fun np_log :: "float64 \<Rightarrow> float64" where
  "np_log (Fin a) = (if a < 0 then NaN else if a = 0 then NInf else Fin (ln a))"
| "np_log PInf = PInf"
| "np_log _ = NaN"

definition isna :: "float64 \<Rightarrow> bool" where
  "isna v \<longleftrightarrow> v = NaN"

text \<open>\<^verbatim>\<open>column == 0\<close>, elementwise: false on the infinities and on not-a-number.\<close>

fun eq_zero :: "float64 \<Rightarrow> bool" where
  "eq_zero (Fin a) = (a = 0)"
| "eq_zero _ = False"

definition f_sum :: "float64 list \<Rightarrow> float64" where
  "f_sum vs = foldl f_add (Fin 0) vs"

text \<open>
  \<^verbatim>\<open>Series.mean()\<close> and \<^verbatim>\<open>Series.std()\<close> with their defaults: missing values are
  skipped, the standard deviation is the sample one (\<^verbatim>\<open>ddof=1\<close>), computed in two passes,
  and is not-a-number when fewer than two values remain.
\<close>

definition series_mean :: "float64 list \<Rightarrow> float64" where
  "series_mean vs =
     (let xs = filter (\<lambda>v. \<not> isna v) vs; count = length xs
      in if count > 0 then f_div (f_sum xs) (Fin (real count)) else NaN)"

definition series_var :: "float64 list \<Rightarrow> float64" where
  "series_var vs =
     (let xs = filter (\<lambda>v. \<not> isna v) vs; count = length xs
      in if count \<le> 1 then NaN
         else let avg = f_div (f_sum xs) (Fin (real count));
                  sqr = map (\<lambda>v. let d = f_sub avg v in f_mul d d) xs
              in f_div (f_sum sqr) (Fin (real (count - 1))))"

definition series_std :: "float64 list \<Rightarrow> float64" where
  "series_std vs = f_sqrt (series_var vs)"

section \<open>Parsing text as a float\<close>

text \<open>
  \<^verbatim>\<open>astype(float)\<close> on a text column calls Python's \<^verbatim>\<open>float\<close> on every text value.
  \<^verbatim>\<open>float\<close> accepts underscores between digits, surrounding whitespace, a sign, a
  decimal number with an optional exponent, and the words inf, infinity and nan in any
  letter case; anything else raises \<^verbatim>\<open>ValueError\<close> (\<open>None\<close> here).
\<close>

definition is_digit :: "char \<Rightarrow> bool" where
  "is_digit c \<longleftrightarrow> (48::nat) \<le> of_char c \<and> of_char c \<le> (57::nat)"

definition digit_val :: "char \<Rightarrow> nat" where
  "digit_val c = of_char c - 48"

definition digits_val :: "string \<Rightarrow> nat" where
  "digits_val ds = foldl (\<lambda>a c. 10 * a + digit_val c) 0 ds"

definition is_space :: "char \<Rightarrow> bool" where
  "is_space c \<longleftrightarrow> (of_char c :: nat) \<in> {9, 10, 11, 12, 13, 32, 133, 160}"

definition to_lower :: "char \<Rightarrow> char" where
  "to_lower c =
     (if (65::nat) \<le> of_char c \<and> of_char c \<le> (90::nat) then char_of (of_char c + (32::nat)) else c)"

text \<open>Every underscore stands between two digits.\<close>

fun underscores_ok :: "char \<Rightarrow> string \<Rightarrow> bool" where
  "underscores_ok prev [] = (prev \<noteq> CHR ''_'')"
| "underscores_ok prev (c # cs) =
     ((if c = CHR ''_'' then is_digit prev else (prev = CHR ''_'' \<longrightarrow> is_digit c))
      \<and> underscores_ok c cs)"

definition strip :: "string \<Rightarrow> string" where
  "strip s = rev (dropWhile is_space (rev (dropWhile is_space s)))"

fun split_sign :: "string \<Rightarrow> bool \<times> string" where
  "split_sign (c # cs) =
     (if c = CHR ''-'' then (True, cs) else if c = CHR ''+'' then (False, cs) else (False, c # cs))"
| "split_sign [] = (False, [])"

definition parse_exponent :: "string \<Rightarrow> int option" where
  "parse_exponent s =
     (case s of
        [] \<Rightarrow> Some 0
      | c # cs \<Rightarrow>
          if c = CHR ''e'' \<or> c = CHR ''E'' then
            (let (neg, ds) = split_sign cs
             in if ds \<noteq> [] \<and> list_all is_digit ds
                then Some (if neg then - int (digits_val ds) else int (digits_val ds))
                else None)
          else None)"

definition scale10 :: "real \<Rightarrow> int \<Rightarrow> real" where
  "scale10 m e = (if 0 \<le> e then m * 10 ^ nat e else m / 10 ^ nat (- e))"

definition parse_decimal :: "string \<Rightarrow> real option" where
  "parse_decimal s =
     (let ip = takeWhile is_digit s; r1 = dropWhile is_digit s;
          (fp, r2) = (case r1 of
                        [] \<Rightarrow> ([], [])
                      | c # cs \<Rightarrow> if c = CHR ''.''
                                  then (takeWhile is_digit cs, dropWhile is_digit cs)
                                  else ([], r1))
      in if ip = [] \<and> fp = [] then None
         else (case parse_exponent r2 of
                 None \<Rightarrow> None
               | Some e \<Rightarrow>
                   Some (scale10 (real (digits_val ip) + real (digits_val fp) / 10 ^ length fp) e)))"

definition parse_inf_or_nan :: "bool \<Rightarrow> string \<Rightarrow> float64 option" where
  "parse_inf_or_nan neg s =
     (let w = map to_lower s
      in if w = ''inf'' \<or> w = ''infinity'' then Some (inf_of_sign neg)
         else if w = ''nan'' then Some NaN
         else None)"

definition to_float :: "string \<Rightarrow> float64 option" where
  "to_float s =
     (if \<not> underscores_ok (CHR 0x00) s then None
      else let t = strip (filter (\<lambda>c. c \<noteq> CHR ''_'') s);
               (neg, body) = split_sign t
           in (case parse_decimal body of
                 Some r \<Rightarrow> Some (Fin (if neg then - r else r))
               | None \<Rightarrow> parse_inf_or_nan neg body))"

section \<open>clean\_money\_columns\<close>

text \<open>
  The \<^verbatim>\<open>.str\<close> accessor exists on columns of text (object, string, and categorical with
  text labels) and raises \<^verbatim>\<open>AttributeError\<close> on every other kind. It yields the text
  values, the missing ones staying missing.
\<close>

fun str_values :: "column \<Rightarrow> error + string option list" where
  "str_values (ObjectCol vs) = Inr vs"
| "str_values (StringCol vs) = Inr vs"
| "str_values (CategoryCol cats vs) = Inr vs"
| "str_values _ = Inl AttributeError"

text \<open>
  \<^verbatim>\<open>.str.replace(c, "")\<close> for a pattern of one character, which pandas takes literally:
  every occurrence of the character is removed.
\<close>

definition str_replace :: "char \<Rightarrow> string option list \<Rightarrow> string option list" where
  "str_replace c vs = map (map_option (filter (\<lambda>x. x \<noteq> c))) vs"

text \<open>
  \<^verbatim>\<open>astype(float)\<close>: a missing value becomes not-a-number, a text value is parsed, and
  the first text that does not parse raises \<^verbatim>\<open>ValueError\<close>.
\<close>

fun value_to_float :: "string option \<Rightarrow> float64 option" where
  "value_to_float None = Some NaN"
| "value_to_float (Some s) = to_float s"

fun astype_float :: "string option list \<Rightarrow> error + float64 list" where
  "astype_float [] = Inr []"
| "astype_float (v # vs) =
     (case value_to_float v of
        None \<Rightarrow> Inl ValueError
      | Some x \<Rightarrow> (case astype_float vs of Inl e \<Rightarrow> Inl e | Inr xs \<Rightarrow> Inr (x # xs)))"

text \<open>
  Lines 35 and 36: \<^verbatim>\<open>(column == 0).astype('boolean')\<close>, then the rows where the parsed
  value is missing are set to \<^verbatim>\<open>pd.NA\<close>.
\<close>

definition indicator_column :: "float64 list \<Rightarrow> column" where
  "indicator_column fs =
     (let ind = map (\<lambda>v. Some (eq_zero v)) fs
      in BooleanCol (map (\<lambda>(v, b). if isna v then None else b) (zip fs ind)))"

definition eps :: float64 where
  "eps = Fin 1"

definition log_column :: "float64 list \<Rightarrow> float64 list" where
  "log_column fs = map (\<lambda>v. np_log (f_add v eps)) fs"

definition scale_column :: "float64 list \<Rightarrow> float64 list" where
  "scale_column fs =
     (let m = series_mean fs; s = series_std fs
      in map (\<lambda>v. f_div (f_sub v m) s) fs)"

text \<open>
  Lines 32 and 33: both characters are removed from every text value, then the column is
  converted to floats.
\<close>

definition parse_money_column :: "column \<Rightarrow> error + float64 list" where
  "parse_money_column column =
     (case str_values column of
        Inl e \<Rightarrow> Inl e
      | Inr vs \<Rightarrow> astype_float (str_replace (CHR '','') (str_replace (CHR ''$'') vs)))"

text \<open>Lines 37 to 40: the logarithm first, then the scaling, each under its flag.\<close>

definition transform_column :: "bool \<Rightarrow> bool \<Rightarrow> float64 list \<Rightarrow> float64 list" where
  "transform_column log' scale fs =
     (let fs1 = (if log' then log_column fs else fs)
      in if scale then scale_column fs1 else fs1)"

text \<open>
  The body of the loop for a name of \<^verbatim>\<open>money_columns\<close> (lines 32 to 41). The column is
  the one the dataset holds under the name when the iteration starts. Both faults come
  before the first write, so a faulting iteration leaves the dataset as it found it. The
  \<open>KeyError\<close> branch is never taken: the loop visits names of the dataset, and no column
  is ever removed.
\<close>

definition clean_money_column ::
  "bool \<Rightarrow> bool \<Rightarrow> bool \<Rightarrow> string \<Rightarrow> columns \<Rightarrow> error + columns" where
  "clean_money_column log' scale indicator name cs =
     (case map_of cs name of
        None \<Rightarrow> Inl KeyError
      | Some column \<Rightarrow>
          (case parse_money_column column of
             Inl e \<Rightarrow> Inl e
           | Inr fs \<Rightarrow>
               let cs1 = (if indicator
                          then setitem (name @ ''_ind'') (indicator_column fs) cs
                          else cs)
               in Inr (setitem name (FloatCol (transform_column log' scale fs)) cs1)))"

text \<open>
  The loop of line 30 visits the names the dataset has when the call starts, in column
  order; columns appended during the loop are not visited. It returns the columns as the
  loop leaves them, and the fault that stopped it, if any.
\<close>

fun money_loop ::
  "string list \<Rightarrow> bool \<Rightarrow> bool \<Rightarrow> bool \<Rightarrow> string list \<Rightarrow> columns \<Rightarrow> columns \<times> error option" where
  "money_loop money_columns log' scale indicator [] cs = (cs, None)"
| "money_loop money_columns log' scale indicator (name # rest) cs =
     (if name \<in> set money_columns then
        (case clean_money_column log' scale indicator name cs of
           Inl e \<Rightarrow> (cs, Some e)
         | Inr cs' \<Rightarrow> money_loop money_columns log' scale indicator rest cs')
      else money_loop money_columns log' scale indicator rest cs)"

text \<open>
  The function works on the caller's dataset in place. The result is the dataset as the
  call leaves it, and \<open>None\<close> when the call returns (it returns that same dataset) or the
  fault it raises.
\<close>

definition clean_money_columns ::
  "'i dataset \<Rightarrow> string list \<Rightarrow> bool \<Rightarrow> bool \<Rightarrow> bool \<Rightarrow> 'i dataset \<times> error option" where
  "clean_money_columns dataset money_columns log' scale indicator =
     (let (cs, err) = money_loop money_columns log' scale indicator
                        (names (columns dataset)) (columns dataset)
      in (dataset\<lparr>columns := cs\<rparr>, err))"

section \<open>clean\_types\<close>

text \<open>
  \<^verbatim>\<open>astype('category')\<close> on a text column: the categories are the distinct text values
  in sorted order, the rows keep their labels. \<open>clean_types\<close> converts text columns only.
\<close>

definition categories_of :: "string option list \<Rightarrow> string list" where
  "categories_of vs = sort (remdups (concat (map (\<lambda>v. case v of None \<Rightarrow> [] | Some s \<Rightarrow> [s]) vs)))"

fun astype_category :: "column \<Rightarrow> column" where
  "astype_category (ObjectCol vs) = CategoryCol (categories_of vs) vs"
| "astype_category (StringCol vs) = CategoryCol (categories_of vs) vs"
| "astype_category c = c"

text \<open>
  The loop of lines 66 to 75 fills three dictionaries, which keep insertion order;
  \<open>setitem\<close> is also the assignment to a dictionary key.
\<close>

fun clean_types_loop ::
  "columns \<Rightarrow> columns \<times> columns \<times> columns \<Rightarrow> columns \<times> columns \<times> columns" where
  "clean_types_loop [] acc = acc"
| "clean_types_loop ((name, column) # rest) (categoricals, numericals, booleans) =
     (if dtype_of column \<in> {Object, String} then
        clean_types_loop rest (setitem name (astype_category column) categoricals, numericals, booleans)
      else if dtype_of column \<in> {Bool, Boolean} then
        clean_types_loop rest (categoricals, numericals, setitem name column booleans)
      else
        clean_types_loop rest (categoricals, setitem name column numericals, booleans))"

text \<open>
  Lines 76 to 80: three frames over the index of the input, joined side by side. The
  result is a new dataset; the input is read only.
\<close>

definition clean_types :: "'i dataset \<Rightarrow> 'i dataset" where
  "clean_types dataset =
     (let (categoricals, numericals, booleans) = clean_types_loop (columns dataset) ([], [], [])
      in \<lparr>index = index dataset, columns = numericals @ categoricals @ booleans\<rparr>)"

section \<open>Datasets as objects\<close>

text \<open>
  A Python variable holds a reference to a dataset object. The store is the list of the
  objects allocated so far and a reference is a position in it. \<open>clean_money_columns\<close>
  writes through the reference it is given and returns it; \<open>clean_types\<close> allocates the
  dataset it returns.
\<close>

type_synonym 'i store = "'i dataset list"

definition clean_money_columns_obj ::
  "'i store \<Rightarrow> nat \<Rightarrow> string list \<Rightarrow> bool \<Rightarrow> bool \<Rightarrow> bool \<Rightarrow> 'i store \<times> (error + nat)" where
  "clean_money_columns_obj st r money_columns log' scale indicator =
     (let (ds, err) = clean_money_columns (st ! r) money_columns log' scale indicator
      in (st[r := ds], case err of None \<Rightarrow> Inr r | Some e \<Rightarrow> Inl e))"

definition clean_types_obj :: "'i store \<Rightarrow> nat \<Rightarrow> 'i store \<times> nat" where
  "clean_types_obj st r = (st @ [clean_types (st ! r)], length st)"

section \<open>The three kinds of the specification\<close>

text \<open>
  The specification classifies a column by priority: text or object is categorical,
  otherwise boolean is boolean, otherwise numeric. \<open>spec_kind\<close> follows these words; the
  theorems on \<open>clean_types\<close> compare the loop of the source with it.
\<close>

datatype kind = Numeric | Categorical | BooleanKind

definition spec_kind :: "column \<Rightarrow> kind" where
  "spec_kind c =
     (if dtype_of c = Object \<or> dtype_of c = String then Categorical
      else if dtype_of c = Bool \<or> dtype_of c = Boolean then BooleanKind
      else Numeric)"


section \<open>Mean and sample standard deviation of the specification\<close>

text \<open>
  The specification scales with the mean and the sample standard deviation (\<^verbatim>\<open>ddof=1\<close>)
  of the non-missing values. These two definitions follow its words, on real numbers; the
  theorem on the scaling compares \<open>series_mean\<close> and \<open>series_std\<close> of the source with them.
\<close>

definition spec_mean :: "real list \<Rightarrow> real" where
  "spec_mean rs = sum_list rs / real (length rs)"

definition spec_sample_std :: "real list \<Rightarrow> real" where
  "spec_sample_std rs =
     sqrt (sum_list (map (\<lambda>r. (r - spec_mean rs)\<^sup>2) rs) / real (length rs - 1))"

section \<open>The currency format of the specification\<close>

text \<open>
  The specification describes the text of a money column as an optional dollar sign in
  front, digits with optional commas as thousands separators, and an optional decimal
  part. \<open>is_currency\<close> follows these words: after the optional dollar sign come digits and
  commas, at least one digit among them, and then nothing or a point followed by digits.
  It does not constrain where the commas stand, so it accepts every properly grouped
  amount. \<open>currency_value\<close> is the number such a text denotes: the place value of its
  digits, the dollar sign and the commas set aside.
\<close>

definition is_currency :: "string \<Rightarrow> bool" where
  "is_currency s \<longleftrightarrow>
     (let body = (case s of [] \<Rightarrow> [] | c # cs \<Rightarrow> if c = CHR ''$'' then cs else s);
          ip = takeWhile (\<lambda>c. is_digit c \<or> c = CHR '','') body;
          rest = dropWhile (\<lambda>c. is_digit c \<or> c = CHR '','') body
      in (\<exists>c \<in> set ip. is_digit c) \<and>
         (case rest of [] \<Rightarrow> True | c # fp \<Rightarrow> c = CHR ''.'' \<and> list_all is_digit fp))"

definition decimal_value :: "string \<Rightarrow> real" where
  "decimal_value t =
     (let ip = takeWhile is_digit t; fp = drop (Suc (length ip)) t
      in real (digits_val ip) + real (digits_val fp) / 10 ^ length fp)"

definition currency_value :: "string \<Rightarrow> real" where
  "currency_value s = decimal_value (filter (\<lambda>c. c \<noteq> CHR ''$'' \<and> c \<noteq> CHR '','') s)"
section \<open>Example datasets\<close>

definition example_types :: "nat dataset" where
  "example_types = \<lparr>index = [7, 3], columns =
     [(''text_col'', ObjectCol [Some ''b'', None]), (''int_col'', IntCol [1, 2]),
      (''bool_col'', BoolCol [True, False]), (''float_col'', FloatCol [Fin 1, NaN])]\<rparr>"

definition example_money :: "nat dataset" where
  "example_money = \<lparr>index = [0, 1, 2, 3], columns =
     [(''price'', ObjectCol [Some ''$0'', Some ''$5.00'', None, Some ''$0''])]\<rparr>"


definition example_unparseable :: "nat dataset" where
  "example_unparseable = \<lparr>index = [0, 1], columns =
     [(''price'', ObjectCol [Some ''12'', Some ''''])]\<rparr>"

definition example_empty_text :: "nat dataset" where
  "example_empty_text = \<lparr>index = [0, 1, 2, 3], columns =
     [(''price'', ObjectCol [Some ''$0'', Some ''$5.00'', Some '''', Some ''$0''])]\<rparr>"

definition example_cleaned :: "nat dataset" where
  "example_cleaned = \<lparr>index = [0, 1, 2, 3], columns =
     [(''price'', FloatCol [Fin 0, Fin 5, NaN, Fin 0]),
      (''price_ind'', BooleanCol [Some True, Some False, None, Some True])]\<rparr>"

definition example_existing_ind :: "nat dataset" where
  "example_existing_ind = \<lparr>index = [0], columns =
     [(''price'', ObjectCol [Some ''$1'']), (''price_ind'', ObjectCol [Some ''keep''])]\<rparr>"

definition example_mixed :: "nat dataset" where
  "example_mixed = \<lparr>index = [0, 1], columns =
     [(''name'', ObjectCol [Some ''a'', Some ''b'']),
      (''price'', ObjectCol [Some ''$2'', Some ''0'']),
      (''count'', IntCol [4, 5])]\<rparr>"

definition example_log :: "nat dataset" where
  "example_log = \<lparr>index = [0, 1], columns = [(''price'', ObjectCol [Some ''$0'', Some ''$1''])]\<rparr>"

definition example_scale :: "nat dataset" where
  "example_scale = \<lparr>index = [0, 1, 2], columns =
     [(''price'', ObjectCol [Some ''1.0'', Some ''2.0'', Some ''3.0''])]\<rparr>"

definition example_currency :: "nat dataset" where
  "example_currency = \<lparr>index = [0, 1, 2], columns =
     [(''id'', IntCol [1, 2, 3]),
      (''price'', ObjectCol [Some ''$1,234.50'', Some ''12'', None])]\<rparr>"
section \<open>Assignment to a column\<close>

lemma setitem_append: "k \<notin> fst ` set cs \<Longrightarrow> setitem k v cs = cs @ [(k, v)]"
  by (induction cs) auto

lemma map_of_setitem: "map_of (setitem k v cs) = (map_of cs)(k \<mapsto> v)"
  by (induction cs) (auto simp: fun_eq_iff)

lemma names_setitem:
  "names (setitem k v cs) = (if k \<in> set (names cs) then names cs else names cs @ [k])"
  by (induction cs) (auto simp: names_def)

section \<open>Properties of clean\_types\<close>

lemma clean_types_loop_eq:
  "distinct (map fst cs) \<Longrightarrow>
   fst ` set cs \<inter> (fst ` set categoricals \<union> fst ` set numericals \<union> fst ` set booleans) = {} \<Longrightarrow>
   clean_types_loop cs (categoricals, numericals, booleans) =
     (categoricals @ map (\<lambda>(n, c). (n, astype_category c)) (filter (\<lambda>(n, c). spec_kind c = Categorical) cs),
      numericals @ filter (\<lambda>(n, c). spec_kind c = Numeric) cs,
      booleans @ filter (\<lambda>(n, c). spec_kind c = BooleanKind) cs)"
proof (induction cs arbitrary: categoricals numericals booleans)
  case Nil
  then show ?case by simp
next
  case (Cons p cs)
  obtain name column where p: "p = (name, column)" by (cases p)
  from Cons.prems p have d: "distinct (map fst cs)" and nin: "name \<notin> fst ` set cs"
    and f1: "name \<notin> fst ` set categoricals" and f2: "name \<notin> fst ` set numericals"
    and f3: "name \<notin> fst ` set booleans"
    and dj: "fst ` set cs \<inter> (fst ` set categoricals \<union> fst ` set numericals \<union> fst ` set booleans) = {}"
    by auto
  show ?case
  proof (cases "spec_kind column")
    case Numeric
    then have t: "\<not> dtype_of column \<in> {Object, String}" "\<not> dtype_of column \<in> {Bool, Boolean}"
      by (auto simp: spec_kind_def split: if_splits)
    have dj': "fst ` set cs \<inter> (fst ` set categoricals \<union> fst ` set (numericals @ [(name, column)]) \<union> fst ` set booleans) = {}"
      using dj nin by auto
    show ?thesis
      using Cons.IH[OF d dj'] t Numeric by (simp add: p setitem_append[OF f2])
  next
    case Categorical
    then have t: "dtype_of column \<in> {Object, String}"
      by (auto simp: spec_kind_def split: if_splits)
    have dj': "fst ` set cs \<inter> (fst ` set (categoricals @ [(name, astype_category column)]) \<union> fst ` set numericals \<union> fst ` set booleans) = {}"
      using dj nin by auto
    show ?thesis
      using Cons.IH[OF d dj'] t Categorical by (simp add: p setitem_append[OF f1])
  next
    case BooleanKind
    then have t: "\<not> dtype_of column \<in> {Object, String}" "dtype_of column \<in> {Bool, Boolean}"
      by (auto simp: spec_kind_def split: if_splits)
    have dj': "fst ` set cs \<inter> (fst ` set categoricals \<union> fst ` set numericals \<union> fst ` set (booleans @ [(name, column)])) = {}"
      using dj nin by auto
    show ?thesis
      using Cons.IH[OF d dj'] t BooleanKind by (simp add: p setitem_append[OF f3])
  qed
qed

lemma columns_clean_types:
  assumes "distinct (names (columns ds))"
  shows "columns (clean_types ds) =
     filter (\<lambda>(n, c). spec_kind c = Numeric) (columns ds) @
     map (\<lambda>(n, c). (n, astype_category c)) (filter (\<lambda>(n, c). spec_kind c = Categorical) (columns ds)) @
     filter (\<lambda>(n, c). spec_kind c = BooleanKind) (columns ds)"
  using clean_types_loop_eq[of "columns ds" "[]" "[]" "[]"] assms
  by (simp add: clean_types_def names_def)

lemma index_clean_types: "index (clean_types ds) = index ds"
  by (simp add: clean_types_def split: prod.splits)

lemma length_three_filters:
  "length (filter (\<lambda>(n, c). spec_kind c = Numeric) cs) +
   length (filter (\<lambda>(n, c). spec_kind c = Categorical) cs) +
   length (filter (\<lambda>(n, c). spec_kind c = BooleanKind) cs) = length cs"
proof (induction cs)
  case Nil
  then show ?case by simp
next
  case (Cons p cs)
  then show ?case by (cases p; cases "spec_kind (snd p)") auto
qed

lemma col_length_astype_category: "col_length (astype_category c) = col_length c"
  by (cases c) auto

lemma astype_category_text:
  "spec_kind c = Categorical \<Longrightarrow>
   \<exists>vs. str_values c = Inr vs \<and> astype_category c = CategoryCol (categories_of vs) vs"
  by (cases c) (auto simp: spec_kind_def)

lemma set_categories_of: "set (categories_of vs) = {s. Some s \<in> set vs}"
  by (auto simp: categories_of_def split: option.splits)

section \<open>Evaluating the model on concrete datasets\<close>

lemmas parse_defs = to_float_def strip_def is_space_def parse_decimal_def is_digit_def
  parse_exponent_def digits_val_def digit_val_def scale10_def parse_inf_or_nan_def to_lower_def inf_of_sign_def
lemmas money_defs = clean_money_columns_def clean_money_column_def parse_money_column_def
  str_replace_def indicator_column_def transform_column_def log_column_def scale_column_def names_def
  isna_def eps_def series_mean_def series_std_def series_var_def f_sum_def f_sub_def


lemma fst_comp_astype: "fst \<circ> (\<lambda>(n, c). (n, astype_category c)) = fst"
  by (auto simp: fun_eq_iff)

lemma names_clean_types_perm:
  assumes "distinct (names (columns ds))"
  shows "distinct (names (columns (clean_types ds)))"
    and "set (names (columns (clean_types ds))) = set (names (columns ds))"
proof -
  let ?cs = "columns ds"
  have d: "distinct (map fst ?cs)" using assms by (simp add: names_def)
  have key: "spec_kind c = spec_kind c'" if "(n, c) \<in> set ?cs" "(n, c') \<in> set ?cs" for n c c'
    using d that by (metis eq_key_imp_eq_value)
  show "distinct (names (columns (clean_types ds)))"
    unfolding columns_clean_types[OF assms] names_def
    using d by (auto simp: fst_comp_astype distinct_map_filter dest: key)
  show "set (names (columns (clean_types ds))) = set (names (columns ds))"
    unfolding columns_clean_types[OF assms] names_def
    apply (auto simp: fst_comp_astype)
    subgoal for n c by (cases "spec_kind c") force+
    done
qed

text \<open>
  Claim C9. For every dataset (with distinct column names and columns as long as the
  index), the dataset returned by \<open>clean_types\<close> has the index of the input, value by
  value and in the same order, so no row is added, dropped or reordered; it has as many
  columns as the input, under the same names, and each column still has one value per row.
\<close>

theorem clean_types_preserves_rows_and_column_count:
  assumes "wf_dataset ds"
  shows "index (clean_types ds) = index ds \<and>
         length (columns (clean_types ds)) = length (columns ds) \<and>
         set (names (columns (clean_types ds))) = set (names (columns ds)) \<and>
         wf_dataset (clean_types ds)"
proof -
  from assms have d: "distinct (names (columns ds))"
    and len: "\<forall>(n, c) \<in> set (columns ds). col_length c = length (index ds)"
    by (auto simp: wf_dataset_def list_all_iff)
  have l: "length (columns (clean_types ds)) = length (columns ds)"
    using length_three_filters[of "columns ds"] by (simp add: columns_clean_types[OF d])
  have len': "\<forall>(n, c) \<in> set (columns (clean_types ds)). col_length c = length (index ds)"
    using len by (auto simp: columns_clean_types[OF d] col_length_astype_category)
  show ?thesis
    using l len' names_clean_types_perm[OF d]
    by (simp add: wf_dataset_def index_clean_types list_all_iff)
qed

theorem clean_types_preserves_rows_and_column_count_witness:
  "wf_dataset example_types \<and> index (clean_types example_types) = [7, 3] \<and>
   length (columns (clean_types example_types)) = 4"
proof -
  have h: "wf_dataset example_types"
    by (simp add: wf_dataset_def example_types_def names_def)
  show ?thesis
    using h clean_types_preserves_rows_and_column_count[OF h]
    by (simp add: example_types_def)
qed

text \<open>
  Claim C8. \<open>clean_types\<close> classifies every column by the priority of the specification
  (text or object is categorical, otherwise boolean is boolean, otherwise numeric, which
  takes integer, float and every remaining kind). Its result lists the numeric columns,
  then the categorical ones, then the boolean ones, each group in the order of the input.
  A categorical column is converted to the enumerated-label representation, whose labels
  are the text values of the column; numeric and boolean columns are passed unchanged.
  For the input order text, int, bool, float the output order is int, float, text, bool
  (the witness).
\<close>

theorem clean_types_groups_columns_by_kind:
  assumes "distinct (names (columns ds))"
  shows "columns (clean_types ds) =
           filter (\<lambda>(n, c). spec_kind c = Numeric) (columns ds) @
           map (\<lambda>(n, c). (n, astype_category c))
             (filter (\<lambda>(n, c). spec_kind c = Categorical) (columns ds)) @
           filter (\<lambda>(n, c). spec_kind c = BooleanKind) (columns ds) \<and>
         (\<forall>(n, c) \<in> set (columns ds). spec_kind c = Categorical \<longrightarrow>
            (\<exists>vs. str_values c = Inr vs \<and>
                  astype_category c = CategoryCol (categories_of vs) vs \<and>
                  set (categories_of vs) = {s. Some s \<in> set vs})) \<and>
         (\<forall>c. dtype_of c \<in> {Int64, Float64, Category} \<longrightarrow> spec_kind c = Numeric)"
proof -
  have a: "\<forall>(n, c) \<in> set (columns ds). spec_kind c = Categorical \<longrightarrow>
            (\<exists>vs. str_values c = Inr vs \<and>
                  astype_category c = CategoryCol (categories_of vs) vs \<and>
                  set (categories_of vs) = {s. Some s \<in> set vs})"
    using astype_category_text set_categories_of by fastforce
  have b: "\<forall>c. dtype_of c \<in> {Int64, Float64, Category} \<longrightarrow> spec_kind c = Numeric"
    by (auto simp: spec_kind_def)
  show ?thesis using columns_clean_types[OF assms] a b by blast
qed

theorem clean_types_groups_columns_by_kind_witness:
  "distinct (names (columns example_types)) \<and>
   names (columns (clean_types example_types)) = [''int_col'', ''float_col'', ''text_col'', ''bool_col''] \<and>
   columns (clean_types example_types) =
     [(''int_col'', IntCol [1, 2]), (''float_col'', FloatCol [Fin 1, NaN]),
      (''text_col'', CategoryCol [''b''] [Some ''b'', None]), (''bool_col'', BoolCol [True, False])]"
proof -
  have h: "distinct (names (columns example_types))"
    by (simp add: example_types_def names_def)
  show ?thesis
    using h clean_types_groups_columns_by_kind[OF h]
    by (simp add: example_types_def names_def spec_kind_def categories_of_def)
qed


text \<open>
  Claim C10. \<open>clean_types\<close> never writes to the dataset it is given: after the call the
  caller's object, and every other object of the store, is what it was, and the result
  is a newly allocated dataset. \<open>clean_money_columns\<close> writes its changes into the object
  it is given and returns that same object.
\<close>

theorem clean_types_allocates_clean_money_columns_mutates:
  assumes "r < length st"
  shows "(case clean_types_obj st r of (st', r') \<Rightarrow>
            st' ! r = st ! r \<and> (\<forall>q < length st. st' ! q = st ! q) \<and>
            r' = length st \<and> r' \<noteq> r \<and> st' ! r' = clean_types (st ! r)) \<and>
         (case clean_money_columns_obj st r money_columns log' scale indicator of (st', res) \<Rightarrow>
            st' ! r = fst (clean_money_columns (st ! r) money_columns log' scale indicator) \<and>
            (\<forall>q < length st. q \<noteq> r \<longrightarrow> st' ! q = st ! q) \<and>
            length st' = length st \<and>
            (case snd (clean_money_columns (st ! r) money_columns log' scale indicator) of
               None \<Rightarrow> res = Inr r | Some e \<Rightarrow> res = Inl e))"
  using assms
  by (auto simp: clean_types_obj_def clean_money_columns_obj_def nth_append
           split: prod.splits option.splits)

theorem clean_types_allocates_clean_money_columns_mutates_witness:
  "(0::nat) < length [example_money] \<and>
   fst (clean_types_obj [example_money] 0) ! 0 = example_money \<and>
   snd (clean_types_obj [example_money] 0) = 1 \<and>
   fst (clean_money_columns_obj [example_money] 0 [''price''] False False True) ! 0 =
     \<lparr>index = [0, 1, 2, 3], columns =
        [(''price'', FloatCol [Fin 0, Fin 5, NaN, Fin 0]),
         (''price_ind'', BooleanCol [Some True, Some False, None, Some True])]\<rparr> \<and>
   snd (clean_money_columns_obj [example_money] 0 [''price''] False False True) = Inr 0"
proof -
  have h: "(0::nat) < length [example_money]" by simp
  have e: "clean_money_columns example_money [''price''] False False True =
     (\<lparr>index = [0, 1, 2, 3], columns =
        [(''price'', FloatCol [Fin 0, Fin 5, NaN, Fin 0]),
         (''price_ind'', BooleanCol [Some True, Some False, None, Some True])]\<rparr>, None)"
    by (simp add: example_money_def parse_defs money_defs)
  show ?thesis
    using h clean_types_allocates_clean_money_columns_mutates[OF h, of "[''price'']" False False True] e
    by (simp split: prod.splits)
qed

section \<open>Properties of the loop of clean\_money\_columns\<close>

lemma str_values_Inl: "str_values col = Inl e \<Longrightarrow> e = AttributeError"
  by (cases col) auto

lemma astype_float_Inl:
  "astype_float vs = Inl e \<longleftrightarrow> e = ValueError \<and> (\<exists>v \<in> set vs. value_to_float v = None)"
  by (induction vs) (auto split: option.splits sum.splits)

lemma astype_float_Inr:
  "astype_float vs = Inr fs \<longleftrightarrow> map value_to_float vs = map Some fs"
proof (induction vs arbitrary: fs)
  case Nil
  then show ?case by auto
next
  case (Cons v vs)
  show ?case
  proof (cases "astype_float vs")
    case (Inl e)
    with Cons.IH have "\<And>gs. map value_to_float vs \<noteq> map Some gs" by simp
    with Inl show ?thesis by (auto split: option.splits)
  next
    case (Inr gs)
    with Cons.IH[of gs] have "map value_to_float vs = map Some gs" by blast
    with Inr show ?thesis by (auto split: option.splits)
  qed
qed

lemma parse_non_text:
  "isl (str_values col) \<Longrightarrow> parse_money_column col = Inl AttributeError"
  by (cases col) (auto simp: parse_money_column_def)

lemma isl_str_values_simps [simp]:
  "isl (str_values (BooleanCol b))" "isl (str_values (FloatCol f))"
  by simp_all

lemma indicator_column_non_text [simp]: "isl (str_values (indicator_column fs))"
  by (simp add: indicator_column_def)

lemma isl_parse_indicator [simp]: "isl (parse_money_column (indicator_column fs))"
  by (simp add: parse_non_text)

lemma isl_parse_float [simp]: "isl (parse_money_column (FloatCol fs))"
  by (simp add: parse_non_text)

text \<open>What a completed iteration has read and written.\<close>

lemma clean_money_column_Inr:
  assumes "clean_money_column l s i n cs = Inr cs'"
  shows "\<exists>col fs. map_of cs n = Some col \<and> parse_money_column col = Inr fs \<and>
           map_of cs' = (if i then (map_of cs)(n @ ''_ind'' \<mapsto> indicator_column fs) else map_of cs)
                          (n \<mapsto> FloatCol (transform_column l s fs)) \<and>
           names cs' = (if i \<and> n @ ''_ind'' \<notin> set (names cs) then names cs @ [n @ ''_ind''] else names cs)"
proof -
  from assms obtain col fs where c: "map_of cs n = Some col" and p: "parse_money_column col = Inr fs"
    and cs': "cs' = setitem n (FloatCol (transform_column l s fs))
                 (if i then setitem (n @ ''_ind'') (indicator_column fs) cs else cs)"
    by (auto simp: clean_money_column_def Let_def split: option.splits sum.splits)
  from c have nin: "n \<in> set (names cs)"
    by (metis names_def map_of_eq_None_iff option.distinct(1) set_map)
  show ?thesis
    using c p nin by (auto simp: cs' map_of_setitem names_setitem)
qed

lemma clean_money_column_Inl:
  assumes "map_of cs n = Some col"
  shows "clean_money_column l s i n cs = Inl e \<longleftrightarrow> parse_money_column col = Inl e"
  using assms by (auto simp: clean_money_column_def Let_def split: sum.splits)

text \<open>A column the loop cannot parse stops the loop when its turn comes.\<close>

lemma money_loop_fault:
  assumes "c \<in> set ns" "c \<in> set M" "map_of cs c = Some col" "isl (parse_money_column col)"
  shows "snd (money_loop M l s i ns cs) \<noteq> None"
  using assms
proof (induction ns arbitrary: cs col)
  case Nil
  then show ?case by simp
next
  case (Cons n ns)
  show ?case
  proof (cases "n \<in> set M")
    case False
    with Cons.prems have "c \<in> set ns" by auto
    from Cons.IH[OF this Cons.prems(2,3,4)] False show ?thesis by simp
  next
    case True
    show ?thesis
    proof (cases "clean_money_column l s i n cs")
      case (Inl e)
      with True show ?thesis by simp
    next
      case (Inr cs')
      from clean_money_column_Inr[OF Inr] obtain col0 fs where
        c0: "map_of cs n = Some col0" and p0: "parse_money_column col0 = Inr fs" and
        m: "map_of cs' = (if i then (map_of cs)(n @ ''_ind'' \<mapsto> indicator_column fs) else map_of cs)
                          (n \<mapsto> FloatCol (transform_column l s fs))"
        by blast
      have ne: "n \<noteq> c" using c0 p0 Cons.prems(3,4) by auto
      with Cons.prems have cin: "c \<in> set ns" by auto
      have "\<exists>col'. map_of cs' c = Some col' \<and> isl (parse_money_column col')"
        using m ne Cons.prems(3,4) by auto
      then obtain col' where "map_of cs' c = Some col'" "isl (parse_money_column col')" by blast
      from Cons.IH[OF cin Cons.prems(2) this] True Inr show ?thesis by simp
    qed
  qed
qed

text \<open>
  A column the loop cannot parse is still there, as it was, when the loop completes,
  unless an iteration wrote an indicator column over it.
\<close>

lemma money_loop_keeps:
  assumes "money_loop M l s i ns cs = (cs', None)" "map_of cs k = Some col"
    "isl (parse_money_column col)"
    "i \<longrightarrow> (\<forall>m \<in> set ns. m \<in> set M \<longrightarrow> m @ ''_ind'' \<noteq> k)"
  shows "map_of cs' k = Some col"
  using assms
proof (induction ns arbitrary: cs)
  case Nil
  then show ?case by simp
next
  case (Cons n ns)
  show ?case
  proof (cases "n \<in> set M")
    case False
    with Cons.prems(1) have "money_loop M l s i ns cs = (cs', None)" by simp
    from Cons.IH[OF this Cons.prems(2,3)] Cons.prems(4) show ?thesis by simp
  next
    case True
    show ?thesis
    proof (cases "clean_money_column l s i n cs")
      case (Inl e)
      with True Cons.prems(1) show ?thesis by simp
    next
      case (Inr cs1)
      from clean_money_column_Inr[OF Inr] obtain col0 fs where
        c0: "map_of cs n = Some col0" and p0: "parse_money_column col0 = Inr fs" and
        m: "map_of cs1 = (if i then (map_of cs)(n @ ''_ind'' \<mapsto> indicator_column fs) else map_of cs)
                          (n \<mapsto> FloatCol (transform_column l s fs))"
        by blast
      have ne: "n \<noteq> k" using c0 p0 Cons.prems(2,3) by auto
      have k1: "map_of cs1 k = Some col"
        using m ne Cons.prems(2,4) True by auto
      from True Inr Cons.prems(1) have "money_loop M l s i ns cs1 = (cs', None)" by simp
      from Cons.IH[OF this k1 Cons.prems(3)] Cons.prems(4) show ?thesis by simp
    qed
  qed
qed

lemma ind_name_neq [simp]: "n @ ''_ind'' \<noteq> n" "n \<noteq> n @ ''_ind''"
  by auto

text \<open>The indicator column of a money column the loop has processed.\<close>

lemma money_loop_indicator:
  assumes "money_loop M l s True ns cs = (cs', None)" "c \<in> set ns" "c \<in> set M" "distinct ns"
    "map_of cs c = Some col"
  shows "\<exists>fs. parse_money_column col = Inr fs \<and>
           map_of cs' (c @ ''_ind'') = Some (indicator_column fs)"
  using assms
proof (induction ns arbitrary: cs)
  case Nil
  then show ?case by simp
next
  case (Cons n ns)
  show ?case
  proof (cases "n \<in> set M")
    case False
    with Cons.prems have "money_loop M l s True ns cs = (cs', None)" "c \<in> set ns" "distinct ns"
      by auto
    from Cons.IH[OF this(1,2) Cons.prems(3) this(3) Cons.prems(5)] show ?thesis .
  next
    case True
    show ?thesis
    proof (cases "clean_money_column l s True n cs")
      case (Inl e)
      with True Cons.prems(1) show ?thesis by simp
    next
      case (Inr cs1)
      from clean_money_column_Inr[OF Inr] obtain col0 fs where
        c0: "map_of cs n = Some col0" and p0: "parse_money_column col0 = Inr fs" and
        m: "map_of cs1 = ((map_of cs)(n @ ''_ind'' \<mapsto> indicator_column fs))
                          (n \<mapsto> FloatCol (transform_column l s fs))"
        by auto
      from True Inr Cons.prems(1) have run: "money_loop M l s True ns cs1 = (cs', None)" by simp
      from Cons.prems(4) have dn: "distinct ns" and nn: "n \<notin> set ns" by auto
      show ?thesis
      proof (cases "n = c")
        case True
        with c0 Cons.prems(5) have "col0 = col" by simp
        have k: "map_of cs1 (c @ ''_ind'') = Some (indicator_column fs)"
          using m True by simp
        have "map_of cs' (c @ ''_ind'') = Some (indicator_column fs)"
          using money_loop_keeps[OF run k] nn True by auto
        with p0 \<open>col0 = col\<close> show ?thesis by blast
      next
        case False
        with Cons.prems(2) have cin: "c \<in> set ns" by auto
        show ?thesis
        proof (cases "n @ ''_ind'' = c")
          case True
          then have k: "map_of cs1 c = Some (indicator_column fs)" using m False by auto
          have bad: "isl (parse_money_column (indicator_column fs))" by simp
          have "snd (money_loop M l s True ns cs1) \<noteq> None"
            by (rule money_loop_fault[OF cin Cons.prems(3) k bad])
          with run show ?thesis by simp
        next
          case False
          then have "map_of cs1 c = Some col" using m \<open>n \<noteq> c\<close> Cons.prems(5) by auto
          from Cons.IH[OF run cin Cons.prems(3) dn this] show ?thesis .
        qed
      qed
    qed
  qed
qed

text \<open>The float column of a money column the loop has processed.\<close>

lemma money_loop_float:
  assumes "money_loop M l s i ns cs = (cs', None)" "c \<in> set ns" "c \<in> set M" "distinct ns"
    "map_of cs c = Some col"
    "i \<longrightarrow> (\<forall>m \<in> set ns. m \<in> set M \<longrightarrow> m @ ''_ind'' \<noteq> c)"
  shows "\<exists>fs. parse_money_column col = Inr fs \<and>
           map_of cs' c = Some (FloatCol (transform_column l s fs))"
  using assms
proof (induction ns arbitrary: cs)
  case Nil
  then show ?case by simp
next
  case (Cons n ns)
  from Cons.prems(6) have fr: "i \<longrightarrow> (\<forall>m \<in> set ns. m \<in> set M \<longrightarrow> m @ ''_ind'' \<noteq> c)" by simp
  show ?case
  proof (cases "n \<in> set M")
    case False
    with Cons.prems have "money_loop M l s i ns cs = (cs', None)" "c \<in> set ns" "distinct ns"
      by auto
    from Cons.IH[OF this(1,2) Cons.prems(3) this(3) Cons.prems(5) fr] show ?thesis .
  next
    case True
    show ?thesis
    proof (cases "clean_money_column l s i n cs")
      case (Inl e)
      with True Cons.prems(1) show ?thesis by simp
    next
      case (Inr cs1)
      from clean_money_column_Inr[OF Inr] obtain col0 fs where
        c0: "map_of cs n = Some col0" and p0: "parse_money_column col0 = Inr fs" and
        m: "map_of cs1 = (if i then (map_of cs)(n @ ''_ind'' \<mapsto> indicator_column fs) else map_of cs)
                          (n \<mapsto> FloatCol (transform_column l s fs))"
        by blast
      from True Inr Cons.prems(1) have run: "money_loop M l s i ns cs1 = (cs', None)" by simp
      from Cons.prems(4) have dn: "distinct ns" and nn: "n \<notin> set ns" by auto
      show ?thesis
      proof (cases "n = c")
        case True
        with c0 Cons.prems(5) have "col0 = col" by simp
        have k: "map_of cs1 c = Some (FloatCol (transform_column l s fs))"
          using m True by simp
        have "map_of cs' c = Some (FloatCol (transform_column l s fs))"
          using money_loop_keeps[OF run k] fr by auto
        with p0 \<open>col0 = col\<close> show ?thesis by blast
      next
        case False
        with Cons.prems(2) have cin: "c \<in> set ns" by auto
        have "map_of cs1 c = Some col"
          using m False Cons.prems(5,6) True by auto
        from Cons.IH[OF run cin Cons.prems(3) dn this fr] show ?thesis .
      qed
    qed
  qed
qed

text \<open>The loop completes when every money column parses and no indicator name is a money column.\<close>

lemma money_loop_completes:
  assumes "distinct ns"
    "\<forall>n \<in> set ns. n \<in> set M \<longrightarrow> (\<exists>col fs. map_of cs n = Some col \<and> parse_money_column col = Inr fs)"
    "i \<longrightarrow> (\<forall>m \<in> set ns. \<forall>n \<in> set ns. m \<in> set M \<and> n \<in> set M \<longrightarrow> m @ ''_ind'' \<noteq> n)"
  shows "snd (money_loop M l s i ns cs) = None"
  using assms
proof (induction ns arbitrary: cs)
  case Nil
  then show ?case by simp
next
  case (Cons n ns)
  from Cons.prems have dn: "distinct ns" and nn: "n \<notin> set ns"
    and fr: "i \<longrightarrow> (\<forall>m \<in> set ns. \<forall>n \<in> set ns. m \<in> set M \<and> n \<in> set M \<longrightarrow> m @ ''_ind'' \<noteq> n)"
    by auto
  show ?case
  proof (cases "n \<in> set M")
    case False
    have "\<forall>n \<in> set ns. n \<in> set M \<longrightarrow> (\<exists>col fs. map_of cs n = Some col \<and> parse_money_column col = Inr fs)"
      using Cons.prems(2) by simp
    from Cons.IH[OF dn this fr] False show ?thesis by simp
  next
    case True
    with Cons.prems(2) obtain col fs where c0: "map_of cs n = Some col"
      and p0: "parse_money_column col = Inr fs" by auto
    then obtain cs1 where b: "clean_money_column l s i n cs = Inr cs1"
      by (auto simp: clean_money_column_def Let_def)
    from clean_money_column_Inr[OF b] c0 p0 have
      m: "map_of cs1 = (if i then (map_of cs)(n @ ''_ind'' \<mapsto> indicator_column fs) else map_of cs)
                          (n \<mapsto> FloatCol (transform_column l s fs))"
      by auto
    have "\<forall>k \<in> set ns. k \<in> set M \<longrightarrow> (\<exists>col fs. map_of cs1 k = Some col \<and> parse_money_column col = Inr fs)"
    proof (intro ballI impI)
      fix k assume k: "k \<in> set ns" "k \<in> set M"
      then have "k \<noteq> n" using nn by auto
      moreover have "i \<longrightarrow> n @ ''_ind'' \<noteq> k" using Cons.prems(3) k True by auto
      ultimately have "map_of cs1 k = map_of cs k" using m by auto
      with Cons.prems(2) k show "\<exists>col fs. map_of cs1 k = Some col \<and> parse_money_column col = Inr fs"
        by auto
    qed
    from Cons.IH[OF dn this fr] True b show ?thesis by simp
  qed
qed

text \<open>The names the loop may write: the money columns it visits and their indicator names.\<close>

lemma money_loop_frame:
  assumes "money_loop M l s i ns cs = (cs', err)"
    "k \<notin> set M \<or> k \<notin> set ns"
    "\<not> (i \<and> (\<exists>m \<in> set ns. m \<in> set M \<and> k = m @ ''_ind''))"
  shows "map_of cs' k = map_of cs k"
  using assms
proof (induction ns arbitrary: cs)
  case Nil
  then show ?case by simp
next
  case (Cons n ns)
  from Cons.prems(2,3) have p2: "k \<notin> set M \<or> k \<notin> set ns"
    and p3: "\<not> (i \<and> (\<exists>m \<in> set ns. m \<in> set M \<and> k = m @ ''_ind''))" by auto
  show ?case
  proof (cases "n \<in> set M")
    case False
    with Cons.prems(1) have "money_loop M l s i ns cs = (cs', err)" by simp
    from Cons.IH[OF this p2 p3] show ?thesis .
  next
    case True
    show ?thesis
    proof (cases "clean_money_column l s i n cs")
      case (Inl e)
      with True Cons.prems(1) show ?thesis by simp
    next
      case (Inr cs1)
      from clean_money_column_Inr[OF Inr] obtain fs where
        m: "map_of cs1 = (if i then (map_of cs)(n @ ''_ind'' \<mapsto> indicator_column fs) else map_of cs)
                          (n \<mapsto> FloatCol (transform_column l s fs))"
        by blast
      have "k \<noteq> n" using Cons.prems(2) True by auto
      moreover have "i \<longrightarrow> k \<noteq> n @ ''_ind''" using Cons.prems(3) True by auto
      ultimately have k1: "map_of cs1 k = map_of cs k" using m by auto
      from True Inr Cons.prems(1) have "money_loop M l s i ns cs1 = (cs', err)" by simp
      from Cons.IH[OF this p2 p3] k1 show ?thesis by simp
    qed
  qed
qed

text \<open>The loop keeps every column where it stands and appends indicator columns only.\<close>

lemma money_loop_names:
  assumes "money_loop M l s i ns cs = (cs', err)"
  shows "\<exists>new. names cs' = names cs @ new \<and>
           set new \<subseteq> {m @ ''_ind'' | m. i \<and> m \<in> set ns \<and> m \<in> set M}"
  using assms
proof (induction ns arbitrary: cs)
  case Nil
  then show ?case by simp
next
  case (Cons n ns)
  show ?case
  proof (cases "n \<in> set M")
    case False
    with Cons.prems(1) have "money_loop M l s i ns cs = (cs', err)" by simp
    from Cons.IH[OF this] show ?thesis by auto
  next
    case True
    show ?thesis
    proof (cases "clean_money_column l s i n cs")
      case (Inl e)
      with True Cons.prems(1) show ?thesis by simp
    next
      case (Inr cs1)
      from clean_money_column_Inr[OF Inr] have
        n1: "names cs1 = (if i \<and> n @ ''_ind'' \<notin> set (names cs) then names cs @ [n @ ''_ind''] else names cs)"
        by blast
      from True Inr Cons.prems(1) have "money_loop M l s i ns cs1 = (cs', err)" by simp
      from Cons.IH[OF this] obtain new where
        a: "names cs' = names cs1 @ new" and b: "set new \<subseteq> {m @ ''_ind'' | m. i \<and> m \<in> set ns \<and> m \<in> set M}"
        by blast
      show ?thesis
      proof (cases "i \<and> n @ ''_ind'' \<notin> set (names cs)")
        case True
        with n1 a have "names cs' = names cs @ ((n @ ''_ind'') # new)" by simp
        moreover have "set ((n @ ''_ind'') # new) \<subseteq> {m @ ''_ind'' | m. i \<and> m \<in> set (n # ns) \<and> m \<in> set M}"
          using b True \<open>n \<in> set M\<close> by auto
        ultimately show ?thesis by blast
      next
        case False
        with n1 a have "names cs' = names cs @ new" by auto
        moreover have "set new \<subseteq> {m @ ''_ind'' | m. i \<and> m \<in> set (n # ns) \<and> m \<in> set M}"
          using b by auto
        ultimately show ?thesis by blast
      qed
    qed
  qed
qed

text \<open>After a completed loop no money column is a text column any more.\<close>

lemma money_loop_leaves_no_text:
  assumes "money_loop M l s i ns cs = (cs', None)"
    "\<forall>c col. c \<in> set M \<and> map_of cs c = Some col \<and> \<not> isl (str_values col) \<longrightarrow> c \<in> set ns"
    "c \<in> set M" "map_of cs' c = Some col"
  shows "isl (str_values col)"
  using assms
proof (induction ns arbitrary: cs)
  case Nil
  then show ?case by auto
next
  case (Cons n ns)
  show ?case
  proof (cases "n \<in> set M")
    case False
    with Cons.prems(1) have run: "money_loop M l s i ns cs = (cs', None)" by simp
    have "\<forall>c col. c \<in> set M \<and> map_of cs c = Some col \<and> \<not> isl (str_values col) \<longrightarrow> c \<in> set ns"
      using Cons.prems(2) False by auto
    from Cons.IH[OF run this Cons.prems(3,4)] show ?thesis .
  next
    case True
    show ?thesis
    proof (cases "clean_money_column l s i n cs")
      case (Inl e)
      with True Cons.prems(1) show ?thesis by simp
    next
      case (Inr cs1)
      from clean_money_column_Inr[OF Inr] obtain fs where
        m: "map_of cs1 = (if i then (map_of cs)(n @ ''_ind'' \<mapsto> indicator_column fs) else map_of cs)
                          (n \<mapsto> FloatCol (transform_column l s fs))"
        by blast
      from True Inr Cons.prems(1) have run: "money_loop M l s i ns cs1 = (cs', None)" by simp
      have "\<forall>c col. c \<in> set M \<and> map_of cs1 c = Some col \<and> \<not> isl (str_values col) \<longrightarrow> c \<in> set ns"
      proof (intro allI impI)
        fix c col assume h: "c \<in> set M \<and> map_of cs1 c = Some col \<and> \<not> isl (str_values col)"
        then have "c \<noteq> n" using m by auto
        moreover have "map_of cs c = Some col" using h m \<open>c \<noteq> n\<close> by (auto split: if_splits)
        ultimately show "c \<in> set ns" using Cons.prems(2) h by auto
      qed
      from Cons.IH[OF run this Cons.prems(3,4)] show ?thesis .
    qed
  qed
qed

text \<open>On a dataset without money text columns the loop stops at the first money column.\<close>

lemma money_loop_second_run:
  assumes "\<forall>c col. c \<in> set M \<and> map_of cs c = Some col \<longrightarrow> isl (str_values col)"
    "set ns \<subseteq> set (names cs)"
  shows "money_loop M l s i ns cs =
           (cs, if \<exists>c \<in> set ns. c \<in> set M then Some AttributeError else None)"
  using assms
proof (induction ns)
  case Nil
  then show ?case by simp
next
  case (Cons n ns)
  then have ih: "money_loop M l s i ns cs =
           (cs, if \<exists>c \<in> set ns. c \<in> set M then Some AttributeError else None)" by simp
  show ?case
  proof (cases "n \<in> set M")
    case False
    with ih show ?thesis by simp
  next
    case True
    from Cons.prems(2) have "n \<in> fst ` set cs" by (simp add: names_def)
    then obtain col where c: "map_of cs n = Some col"
      by (metis domD dom_map_of_conv_image_fst)
    with Cons.prems(1) True have "isl (str_values col)" by blast
    then have "parse_money_column col = Inl AttributeError" by (rule parse_non_text)
    with c have "clean_money_column l s i n cs = Inl AttributeError"
      by (simp add: clean_money_column_Inl)
    with True show ?thesis by simp
  qed
qed

lemma clean_money_columns_eq:
  "clean_money_columns ds M l s i = (ds', err) \<longleftrightarrow>
     (\<exists>cs'. money_loop M l s i (names (columns ds)) (columns ds) = (cs', err) \<and>
            ds' = ds\<lparr>columns := cs'\<rparr>)"
  by (auto simp: clean_money_columns_def split: prod.splits)

lemma map_of_column:
  "distinct (names cs) \<Longrightarrow> (c, col) \<in> set cs \<Longrightarrow> map_of cs c = Some col"
  by (simp add: names_def)

lemma name_of_column: "(c, col) \<in> set cs \<Longrightarrow> c \<in> set (names cs)"
  by (force simp: names_def)

lemma map_of_Some_name: "map_of cs c = Some col \<Longrightarrow> c \<in> set (names cs)"
  by (metis names_def map_of_eq_None_iff option.distinct(1) set_map)

lemma indicator_column_eq:
  "indicator_column fs = BooleanCol (map (\<lambda>v. if v = NaN then None else Some (v = Fin 0)) fs)"
proof -
  have z: "zip fs (map f fs) = map (\<lambda>v. (v, f v)) fs" for f :: "float64 \<Rightarrow> bool option"
    by (induction fs) auto
  have e: "eq_zero v \<longleftrightarrow> v = Fin 0" for v by (cases v) auto
  show ?thesis by (simp add: indicator_column_def z isna_def e)
qed

lemma parse_money_column_Inr:
  assumes "str_values col = Inr vs" "parse_money_column col = Inr fs"
  shows "map (\<lambda>v. value_to_float (map_option (\<lambda>t. filter (\<lambda>x. x \<noteq> CHR '','') (filter (\<lambda>x. x \<noteq> CHR ''$'') t)) v)) vs
           = map Some fs"
  using assms by (simp add: parse_money_column_def astype_float_Inr str_replace_def option.map_comp comp_def)

lemma parse_money_column_Inl:
  assumes "str_values col = Inr vs" "Some t \<in> set vs"
    "to_float (filter (\<lambda>x. x \<noteq> CHR '','') (filter (\<lambda>x. x \<noteq> CHR ''$'') t)) = None"
  shows "parse_money_column col = Inl ValueError"
proof -
  let ?ws = "str_replace (CHR '','') (str_replace (CHR ''$'') vs)"
  have "Some (filter (\<lambda>x. x \<noteq> CHR '','') (filter (\<lambda>x. x \<noteq> CHR ''$'') t)) \<in> set ?ws"
    using assms(2) by (force simp: str_replace_def)
  then have "\<exists>v \<in> set ?ws. value_to_float v = None" using assms(3) by force
  then have "astype_float ?ws = Inl ValueError" by (simp add: astype_float_Inl)
  with assms(1) show ?thesis by (simp add: parse_money_column_def)
qed

lemma length_transform_column [simp]: "length (transform_column l s fs) = length fs"
  by (simp add: transform_column_def log_column_def scale_column_def Let_def)

lemma f_sub_NaN [simp]: "f_sub NaN m = NaN"
  by (simp add: f_sub_def)

lemma transform_column_NaN:
  assumes "j < length fs" "fs ! j = NaN"
  shows "transform_column l s fs ! j = NaN"
  using assms by (simp add: transform_column_def log_column_def scale_column_def Let_def eps_def)

lemma snd_clean_money_columns:
  "snd (clean_money_columns ds M l s i) = snd (money_loop M l s i (names (columns ds)) (columns ds))"
  by (simp add: clean_money_columns_def split: prod.splits)

lemma fst_clean_money_columns:
  "fst (clean_money_columns ds M l s i) =
     ds\<lparr>columns := fst (money_loop M l s i (names (columns ds)) (columns ds))\<rparr>"
  by (simp add: clean_money_columns_def split: prod.splits)

lemma money_column_result:
  assumes "distinct (names (columns ds))" "(c, col) \<in> set (columns ds)" "c \<in> set M"
    "clean_money_columns ds M l s i = (ds', None)"
    "i \<longrightarrow> (\<forall>m \<in> set (names (columns ds)). m \<in> set M \<longrightarrow> m @ ''_ind'' \<noteq> c)"
  shows "\<exists>fs. parse_money_column col = Inr fs \<and>
           map_of (columns ds') c = Some (FloatCol (transform_column l s fs))"
proof -
  from assms(4) obtain cs' where
    run: "money_loop M l s i (names (columns ds)) (columns ds) = (cs', None)"
    and ds': "ds' = ds\<lparr>columns := cs'\<rparr>"
    by (auto simp: clean_money_columns_eq)
  have mc: "map_of (columns ds) c = Some col" using assms(1,2) by (rule map_of_column)
  have cn: "c \<in> set (names (columns ds))" using assms(2) by (rule name_of_column)
  from money_loop_float[OF run cn assms(3,1) mc assms(5)] ds'
  show ?thesis by simp
qed

lemma log_column_nth:
  assumes "j < length fs"
  shows "(fs ! j = NaN \<longrightarrow> log_column fs ! j = NaN) \<and>
         (\<forall>v. fs ! j = Fin v \<and> 0 < v + 1 \<longrightarrow> log_column fs ! j = Fin (ln (v + 1)))"
  using assms by (auto simp: log_column_def eps_def)

section \<open>The scaling on finite values\<close>

lemma foldl_f_add_Fin: "foldl f_add (Fin a) (map Fin rs) = Fin (a + sum_list rs)"
  by (induction rs arbitrary: a) (auto simp: algebra_simps)

lemma f_sum_Fin: "f_sum (map Fin rs) = Fin (sum_list rs)"
  by (simp add: f_sum_def foldl_f_add_Fin)

lemma series_mean_Fin:
  assumes "filter (\<lambda>v. \<not> isna v) gs = map Fin rs" "0 < length rs"
  shows "series_mean gs = Fin (spec_mean rs)"
  using assms by (simp add: series_mean_def f_sum_Fin spec_mean_def Let_def)

lemma series_std_Fin:
  assumes "filter (\<lambda>v. \<not> isna v) gs = map Fin rs" "2 \<le> length rs"
  shows "series_std gs = Fin (spec_sample_std rs)"
proof -
  let ?n = "length rs"
  have n0: "real ?n \<noteq> 0" and n1: "real (?n - 1) \<noteq> 0" and n2: "\<not> ?n \<le> 1" using assms(2) by auto
  have avg: "f_div (Fin (sum_list rs)) (Fin (real ?n)) = Fin (spec_mean rs)"
    using n0 by (simp add: spec_mean_def)
  have sqr: "map (\<lambda>v. f_mul (f_sub (Fin (spec_mean rs)) v) (f_sub (Fin (spec_mean rs)) v)) (map Fin rs)
               = map Fin (map (\<lambda>r. (r - spec_mean rs)\<^sup>2) rs)"
    by (simp add: f_sub_def power2_eq_square algebra_simps)
  have var0: "series_var gs =
      f_div (f_sum (map (\<lambda>v. f_mul (f_sub (f_div (f_sum (map Fin rs)) (Fin (real ?n))) v)
                                   (f_sub (f_div (f_sum (map Fin rs)) (Fin (real ?n))) v)) (map Fin rs)))
            (Fin (real (?n - 1)))"
    using n2 by (simp only: series_var_def assms(1) Let_def length_map if_False)
  have var1: "series_var gs = f_div (Fin (sum_list (map (\<lambda>r. (r - spec_mean rs)\<^sup>2) rs))) (Fin (real (?n - 1)))"
    by (simp only: var0 f_sum_Fin avg sqr)
  have var: "series_var gs = Fin (sum_list (map (\<lambda>r. (r - spec_mean rs)\<^sup>2) rs) / real (?n - 1))"
    using n1 by (simp only: var1 f_div.simps if_False)
  have nonneg: "0 \<le> sum_list (map (\<lambda>r. (r - spec_mean rs)\<^sup>2) rs) / real (?n - 1)"
    by (intro divide_nonneg_nonneg sum_list_nonneg) auto
  show ?thesis
    using nonneg by (simp add: series_std_def var spec_sample_std_def)
qed

lemma scale_column_spec:
  assumes "filter (\<lambda>v. \<not> isna v) gs = map Fin rs" "2 \<le> length rs" "spec_sample_std rs \<noteq> 0"
  shows "scale_column gs =
           map (\<lambda>v. case v of Fin r \<Rightarrow> Fin ((r - spec_mean rs) / spec_sample_std rs) | _ \<Rightarrow> NaN) gs"
proof -
  have m: "series_mean gs = Fin (spec_mean rs)" using assms(1,2) by (intro series_mean_Fin) auto
  have s: "series_std gs = Fin (spec_sample_std rs)" using assms(1,2) by (rule series_std_Fin)
  have fin: "\<exists>r. v = Fin r" if "v \<in> set gs" "v \<noteq> NaN" for v
  proof -
    from that have "v \<in> set (filter (\<lambda>v. \<not> isna v) gs)" by (simp add: isna_def)
    with assms(1) show ?thesis by auto
  qed
  have "f_div (f_sub v (Fin (spec_mean rs))) (Fin (spec_sample_std rs)) =
        (case v of Fin r \<Rightarrow> Fin ((r - spec_mean rs) / spec_sample_std rs) | _ \<Rightarrow> NaN)"
    if "v \<in> set gs" for v
  proof (cases "v = NaN")
    case True
    then show ?thesis by simp
  next
    case False
    with fin[OF that] obtain r where "v = Fin r" by blast
    then show ?thesis using assms(3) by (simp add: f_sub_def)
  qed
  then show ?thesis by (simp add: scale_column_def m s Let_def)
qed

section \<open>Parsing text in currency format\<close>

lemma is_digit_not_special:
  assumes "is_digit c"
  shows "c \<noteq> CHR ''_''" "c \<noteq> CHR ''.''" "c \<noteq> CHR '',''" "c \<noteq> CHR ''$''" "c \<noteq> CHR ''-''"
    "c \<noteq> CHR ''+''" "\<not> is_space c"
  using assms by (auto simp: is_digit_def is_space_def)

lemma not_digit_chars [simp]:
  "\<not> is_digit (CHR ''.'')" "\<not> is_digit (CHR '','')" "\<not> is_digit (CHR ''$'')" "\<not> is_digit (CHR ''_'')"
  "\<not> is_space (CHR ''.'')"
  by (simp_all add: is_digit_def is_space_def)

lemma digit_or_point:
  assumes "is_digit c \<or> c = CHR ''.''"
  shows "c \<noteq> CHR ''$''" "c \<noteq> CHR '',''" "c \<noteq> CHR ''_''" "\<not> is_space c"
  using assms by (auto simp: is_digit_def is_space_def)

lemma digit_or_comma:
  assumes "is_digit c \<or> c = CHR '',''"
  shows "c \<noteq> CHR ''$''" "c \<noteq> CHR '','' \<longrightarrow> is_digit c"
  using assms by (auto simp: is_digit_def)

lemma underscores_ok_none:
  "CHR ''_'' \<notin> set t \<Longrightarrow> prev \<noteq> CHR ''_'' \<Longrightarrow> underscores_ok prev t"
  by (induction t arbitrary: prev) auto

lemma strip_id:
  assumes "t \<noteq> []" "\<not> is_space (hd t)" "\<not> is_space (last t)"
  shows "strip t = t"
proof -
  have a: "dropWhile is_space t = t" using assms(1,2) by (cases t) auto
  from assms(1) obtain xs x where t: "t = xs @ [x]" by (cases t rule: rev_cases) auto
  with assms(3) have b: "dropWhile is_space (rev t) = rev t" by simp
  show ?thesis by (simp only: strip_def a b rev_rev_ident)
qed

lemma takeWhile_stop:
  "ys = [] \<or> \<not> P (hd ys) \<Longrightarrow> takeWhile P ys = [] \<and> dropWhile P ys = ys"
  by (cases ys) auto

lemma takeWhile_all_append:
  assumes "list_all P xs" "ys = [] \<or> \<not> P (hd ys)"
  shows "takeWhile P (xs @ ys) = xs" "dropWhile P (xs @ ys) = ys"
  using assms(1) takeWhile_stop[of ys P, OF assms(2)] by (induction xs) auto

lemma takeWhile_all: "list_all P xs \<Longrightarrow> takeWhile P xs = xs"
  by (induction xs) auto

lemma dropWhile_all: "list_all P xs \<Longrightarrow> dropWhile P xs = []"
  by (induction xs) auto

text \<open>A decimal numeral without sign and exponent parses to its place value.\<close>

lemma to_float_decimal:
  assumes "dp \<noteq> []" "list_all is_digit dp"
    "dec = [] \<or> (\<exists>fp. dec = CHR ''.'' # fp \<and> list_all is_digit fp)"
  shows "to_float (dp @ dec) = Some (Fin (decimal_value (dp @ dec)))"
proof -
  let ?t = "dp @ dec"
  have chars: "\<forall>c \<in> set ?t. is_digit c \<or> c = CHR ''.''"
    using assms(2,3) by (auto simp: list_all_iff)
  then have nu: "CHR ''_'' \<notin> set ?t" using digit_or_point(3) by blast
  have u: "underscores_ok (CHR 0x00) ?t" by (rule underscores_ok_none[OF nu]) simp
  have f: "filter (\<lambda>c. c \<noteq> CHR ''_'') ?t = ?t"
    by (rule filter_True) (use nu in auto)
  obtain d ds where dp: "dp = d # ds" using assms(1) by (cases dp) auto
  with assms(2) have dd: "is_digit d" by simp
  have hd: "hd ?t = d" using dp by simp
  have "last ?t \<in> set ?t" using assms(1) by (intro last_in_set) simp
  with chars have "is_digit (last ?t) \<or> last ?t = CHR ''.''" by blast
  then have ls: "\<not> is_space (last ?t)" by (rule digit_or_point(4))
  have hs: "\<not> is_space (hd ?t)" unfolding hd using dd by (rule is_digit_not_special(7))
  have ne: "?t \<noteq> []" using assms(1) by simp
  have st: "strip ?t = ?t" using ne hs ls by (rule strip_id)
  have ss: "split_sign ?t = (False, ?t)"
    using dp is_digit_not_special(5,6)[OF dd] by simp
  have fr: "dec = [] \<or> \<not> is_digit (hd dec)" using assms(3) by auto
  have tw: "takeWhile is_digit ?t = dp" and dw: "dropWhile is_digit ?t = dec"
    using takeWhile_all_append[OF assms(2) fr] by auto
  have pd: "parse_decimal ?t = Some (decimal_value ?t)"
  proof (cases "dec = []")
    case True
    have "parse_decimal dp = Some (decimal_value dp)"
      using assms(1,2)
      by (simp add: parse_decimal_def decimal_value_def takeWhile_all dropWhile_all
                    parse_exponent_def scale10_def)
    with True show ?thesis by simp
  next
    case False
    with assms(3) obtain fp where fp: "dec = CHR ''.'' # fp" "list_all is_digit fp" by blast
    have tw': "takeWhile is_digit (dp @ CHR ''.'' # fp) = dp"
      and dw': "dropWhile is_digit (dp @ CHR ''.'' # fp) = CHR ''.'' # fp"
      using tw dw by (simp_all add: fp(1))
    have "parse_decimal (dp @ CHR ''.'' # fp) = Some (decimal_value (dp @ CHR ''.'' # fp))"
      using assms(1) fp(2)
      by (simp add: parse_decimal_def decimal_value_def tw' dw' takeWhile_all dropWhile_all
                    parse_exponent_def scale10_def)
    then show ?thesis by (simp add: fp(1))
  qed
  show ?thesis
    by (simp add: to_float_def u f st ss pd del: filter_append)
qed

text \<open>What is left of a text in currency format once dollar signs and commas are removed.\<close>

lemma currency_stripped:
  assumes "is_currency s"
  shows "\<exists>dp dec. filter (\<lambda>x. x \<noteq> CHR '','') (filter (\<lambda>x. x \<noteq> CHR ''$'') s) = dp @ dec \<and>
           dp \<noteq> [] \<and> list_all is_digit dp \<and>
           (dec = [] \<or> (\<exists>fp. dec = CHR ''.'' # fp \<and> list_all is_digit fp))"
proof -
  define body where "body = (case s of [] \<Rightarrow> [] | c # cs \<Rightarrow> if c = CHR ''$'' then cs else s)"
  define ip where "ip = takeWhile (\<lambda>c. is_digit c \<or> c = CHR '','') body"
  define rest where "rest = dropWhile (\<lambda>c. is_digit c \<or> c = CHR '','') body"
  from assms have dig: "\<exists>c \<in> set ip. is_digit c"
    and rs: "rest = [] \<or> (\<exists>fp. rest = CHR ''.'' # fp \<and> list_all is_digit fp)"
    by (auto simp: is_currency_def Let_def body_def ip_def rest_def split: list.splits)
  have b: "body = ip @ rest" by (simp add: ip_def rest_def)
  have ipc: "\<forall>c \<in> set ip. is_digit c \<or> c = CHR '',''"
    unfolding ip_def by (auto dest: set_takeWhileD)
  have s1: "filter (\<lambda>x. x \<noteq> CHR ''$'') s = filter (\<lambda>x. x \<noteq> CHR ''$'') body"
    by (auto simp: body_def split: list.splits)
  have restc: "\<forall>c \<in> set rest. is_digit c \<or> c = CHR ''.''"
    using rs by (auto simp: list_all_iff)
  have s2: "filter (\<lambda>x. x \<noteq> CHR ''$'') body = body"
  proof (rule filter_True, rule ballI)
    fix c assume "c \<in> set body"
    then have "c \<in> set ip \<or> c \<in> set rest" by (simp add: b)
    with ipc restc show "c \<noteq> CHR ''$''" using digit_or_comma(1) digit_or_point(1) by blast
  qed
  have s3: "filter (\<lambda>x. x \<noteq> CHR '','') rest = rest"
  proof (rule filter_True, rule ballI)
    fix c assume "c \<in> set rest"
    with restc show "c \<noteq> CHR '',''" using digit_or_point(2) by blast
  qed
  let ?dp = "filter (\<lambda>x. x \<noteq> CHR '','') ip"
  have "filter (\<lambda>x. x \<noteq> CHR '','') (filter (\<lambda>x. x \<noteq> CHR ''$'') s)
          = filter (\<lambda>x. x \<noteq> CHR '','') body"
    by (simp only: s1 s2)
  also have "\<dots> = filter (\<lambda>x. x \<noteq> CHR '','') (ip @ rest)"
    by (simp only: b)
  finally have e: "filter (\<lambda>x. x \<noteq> CHR '','') (filter (\<lambda>x. x \<noteq> CHR ''$'') s) = ?dp @ rest"
    by (simp only: filter_append s3)
  from dig obtain d where "d \<in> set ip" "is_digit d" by blast
  then have "d \<in> set ?dp" using is_digit_not_special(3) by simp
  then have d1: "?dp \<noteq> []" by (metis empty_iff list.set(1))
  have d2: "list_all is_digit ?dp"
    unfolding list_all_iff
  proof (rule ballI)
    fix c assume "c \<in> set ?dp"
    then have "c \<in> set ip" "c \<noteq> CHR '',''" by simp_all
    with ipc show "is_digit c" by blast
  qed
  from e d1 d2 rs show ?thesis by blast
qed

lemma to_float_currency:
  assumes "is_currency s"
  shows "to_float (filter (\<lambda>x. x \<noteq> CHR '','') (filter (\<lambda>x. x \<noteq> CHR ''$'') s)) = Some (Fin (currency_value s))"
proof -
  from currency_stripped[OF assms] obtain dp dec where
    e: "filter (\<lambda>x. x \<noteq> CHR '','') (filter (\<lambda>x. x \<noteq> CHR ''$'') s) = dp @ dec" and
    d: "dp \<noteq> []" "list_all is_digit dp"
       "dec = [] \<or> (\<exists>fp. dec = CHR ''.'' # fp \<and> list_all is_digit fp)" by blast
  have "filter (\<lambda>c. c \<noteq> CHR ''$'' \<and> c \<noteq> CHR '','') s = dp @ dec"
    using e by simp
  then have "currency_value s = decimal_value (dp @ dec)" by (simp add: currency_value_def)
  with to_float_decimal[OF d] e show ?thesis by simp
qed

lemma currency_examples:
  "is_currency ''$1,234.50''" "currency_value ''$1,234.50'' = 1234.5" "\<not> is_currency []"
  "\<not> is_currency ''$''" "is_currency ''12''" "\<not> is_currency ''1e5''" "\<not> is_currency ''-3''"
  by (simp_all add: is_currency_def currency_value_def decimal_value_def is_digit_def digits_val_def digit_val_def)

lemma astype_float_total:
  assumes "\<forall>v \<in> set ws. value_to_float v \<noteq> None"
  shows "\<exists>fs. astype_float ws = Inr fs"
proof (cases "astype_float ws")
  case (Inl e)
  with assms show ?thesis by (auto simp: astype_float_Inl)
next
  case (Inr fs)
  then show ?thesis by blast
qed

lemma parse_money_column_currency:
  assumes "str_values col = Inr ws" "\<forall>t. Some t \<in> set ws \<longrightarrow> is_currency t"
  shows "\<exists>fs. parse_money_column col = Inr fs"
proof -
  have "value_to_float v \<noteq> None"
    if "v \<in> set (str_replace (CHR '','') (str_replace (CHR ''$'') ws))" for v
  proof -
    from that obtain w where w: "w \<in> set ws"
      and v: "v = map_option (\<lambda>t. filter (\<lambda>x. x \<noteq> CHR '','') (filter (\<lambda>x. x \<noteq> CHR ''$'') t)) w"
      by (auto simp: str_replace_def option.map_comp comp_def)
    show ?thesis
    proof (cases w)
      case None
      with v show ?thesis by simp
    next
      case (Some t)
      with w assms(2) have "is_currency t" by blast
      from to_float_currency[OF this] v Some show ?thesis by simp
    qed
  qed
  then obtain fs where "astype_float (str_replace (CHR '','') (str_replace (CHR ''$'') ws)) = Inr fs"
    using astype_float_total by blast
  with assms(1) show ?thesis by (simp add: parse_money_column_def)
qed

lemma parse_money_column_text:
  assumes "parse_money_column col = Inr fs"
  shows "\<exists>vs. str_values col = Inr vs"
  using assms by (cases "str_values col") (auto simp: parse_money_column_def)

text \<open>The \<open>KeyError\<close> branch of the loop body is never taken.\<close>

lemma parse_money_column_faults:
  assumes "parse_money_column col = Inl e"
  shows "e = AttributeError \<or> e = ValueError"
proof (cases "str_values col")
  case (Inl e')
  with assms str_values_Inl[OF Inl] show ?thesis by (simp add: parse_money_column_def)
next
  case (Inr vs)
  with assms show ?thesis by (simp add: parse_money_column_def astype_float_Inl)
qed

lemma clean_money_column_no_KeyError:
  assumes "n \<in> set (names cs)"
  shows "clean_money_column l s i n cs \<noteq> Inl KeyError"
proof -
  from assms have "n \<in> fst ` set cs" by (simp add: names_def)
  then obtain col where c: "map_of cs n = Some col"
    by (metis domD dom_map_of_conv_image_fst)
  show ?thesis
    using parse_money_column_faults[of col KeyError] by (auto simp: clean_money_column_Inl[OF c])
qed

lemma money_loop_no_KeyError:
  assumes "set ns \<subseteq> set (names cs)"
  shows "snd (money_loop M l s i ns cs) \<noteq> Some KeyError"
  using assms
proof (induction ns arbitrary: cs)
  case Nil
  then show ?case by simp
next
  case (Cons n ns)
  then have nin: "n \<in> set (names cs)" and sub: "set ns \<subseteq> set (names cs)" by auto
  show ?case
  proof (cases "n \<in> set M")
    case False
    with Cons.IH[OF sub] show ?thesis by simp
  next
    case True
    show ?thesis
    proof (cases "clean_money_column l s i n cs")
      case (Inl e)
      with clean_money_column_no_KeyError[OF nin, of l s i] have "e \<noteq> KeyError" by auto
      with True Inl show ?thesis by simp
    next
      case (Inr cs1)
      from clean_money_column_Inr[OF Inr] have "set (names cs) \<subseteq> set (names cs1)" by auto
      with sub have "set ns \<subseteq> set (names cs1)" by blast
      from Cons.IH[OF this] True Inr show ?thesis by simp
    qed
  qed
qed

lemma clean_money_columns_no_KeyError:
  "snd (clean_money_columns ds M l s i) \<noteq> Some KeyError"
  by (simp add: snd_clean_money_columns money_loop_no_KeyError)

section \<open>Claims on clean\_money\_columns\<close>

text \<open>
  Claim C1, as stated, fails: \<open>clean_money_columns\<close> raises \<^verbatim>\<open>ValueError\<close> on a text value
  that does not parse, the empty string included (the counterexample below).

  Claim C1, amended. For every dataset and every column named in \<^verbatim>\<open>money_columns\<close>:
  when a text value of the column does not parse as a number once the dollar signs and
  commas are removed, the call raises a fault; when the call returns, every value that
  was missing in the text column is missing in the resulting numeric column (for a
  column whose name is not the indicator name of a money column of the dataset).
\<close>

theorem unparseable_text_raises_missing_stays_missing:
  assumes "distinct (names (columns ds))" "(c, col) \<in> set (columns ds)" "c \<in> set money_columns"
    "str_values col = Inr vs"
  shows "((\<exists>t. Some t \<in> set vs \<and>
             to_float (filter (\<lambda>x. x \<noteq> CHR '','') (filter (\<lambda>x. x \<noteq> CHR ''$'') t)) = None) \<longrightarrow>
          snd (clean_money_columns ds money_columns log' scale indicator) \<noteq> None) \<and>
         (snd (clean_money_columns ds money_columns log' scale indicator) = None \<and>
          (indicator \<longrightarrow> (\<forall>m \<in> set (names (columns ds)). m \<in> set money_columns \<longrightarrow> m @ ''_ind'' \<noteq> c)) \<longrightarrow>
          (\<exists>fs. map_of (columns (fst (clean_money_columns ds money_columns log' scale indicator))) c
                  = Some (FloatCol fs) \<and>
                length fs = length vs \<and>
                (\<forall>j < length vs. vs ! j = None \<longrightarrow> fs ! j = NaN)))"
proof (intro conjI impI)
  let ?ns = "names (columns ds)"
  have mc: "map_of (columns ds) c = Some col" using assms(1,2) by (rule map_of_column)
  have cn: "c \<in> set ?ns" using assms(2) by (rule name_of_column)
  {
    assume "\<exists>t. Some t \<in> set vs \<and>
             to_float (filter (\<lambda>x. x \<noteq> CHR '','') (filter (\<lambda>x. x \<noteq> CHR ''$'') t)) = None"
    then obtain t where "Some t \<in> set vs"
      "to_float (filter (\<lambda>x. x \<noteq> CHR '','') (filter (\<lambda>x. x \<noteq> CHR ''$'') t)) = None" by blast
    from parse_money_column_Inl[OF assms(4) this] have "isl (parse_money_column col)" by simp
    from money_loop_fault[OF cn assms(3) mc this, of log' scale indicator]
    show "snd (clean_money_columns ds money_columns log' scale indicator) \<noteq> None"
      by (simp add: snd_clean_money_columns)
  }
  {
    assume a: "snd (clean_money_columns ds money_columns log' scale indicator) = None \<and>
       (indicator \<longrightarrow> (\<forall>m \<in> set ?ns. m \<in> set money_columns \<longrightarrow> m @ ''_ind'' \<noteq> c))"
    obtain cs' where run: "money_loop money_columns log' scale indicator ?ns (columns ds) = (cs', None)"
      using a by (cases "money_loop money_columns log' scale indicator ?ns (columns ds)")
                 (auto simp: snd_clean_money_columns)
    have dn: "distinct ?ns" using assms(1) .
    from money_loop_float[OF run cn assms(3) dn mc] a obtain fs where
      p: "parse_money_column col = Inr fs" and
      f: "map_of cs' c = Some (FloatCol (transform_column log' scale fs))" by blast
    from parse_money_column_Inr[OF assms(4) p] have
      mp: "map (\<lambda>v. value_to_float (map_option (\<lambda>t. filter (\<lambda>x. x \<noteq> CHR '','') (filter (\<lambda>x. x \<noteq> CHR ''$'') t)) v)) vs
           = map Some fs" .
    then have len: "length fs = length vs" by (metis length_map)
    have nan: "fs ! j = NaN" if "j < length vs" "vs ! j = None" for j
    proof -
      from mp that(1) len have "value_to_float (map_option (\<lambda>t. filter (\<lambda>x. x \<noteq> CHR '','') (filter (\<lambda>x. x \<noteq> CHR ''$'') t)) (vs ! j)) = Some (fs ! j)"
        by (metis nth_map)
      with that(2) show ?thesis by simp
    qed
    have "fst (clean_money_columns ds money_columns log' scale indicator) = ds\<lparr>columns := cs'\<rparr>"
      using run by (simp add: fst_clean_money_columns)
    then show "\<exists>fs. map_of (columns (fst (clean_money_columns ds money_columns log' scale indicator))) c
                  = Some (FloatCol fs) \<and> length fs = length vs \<and>
                (\<forall>j < length vs. vs ! j = None \<longrightarrow> fs ! j = NaN)"
      using f len nan by (auto simp: transform_column_NaN)
  }
qed

theorem unparseable_text_raises_counterexample:
  "clean_money_columns example_unparseable [''price''] False False True =
     (example_unparseable, Some ValueError)"
  by (simp add: example_unparseable_def parse_defs money_defs)

theorem unparseable_text_raises_missing_stays_missing_witness:
  "distinct (names (columns example_unparseable)) \<and>
   (''price'', ObjectCol [Some ''12'', Some '''']) \<in> set (columns example_unparseable) \<and>
   ''price'' \<in> set [''price''] \<and>
   str_values (ObjectCol [Some ''12'', Some '''']) = Inr [Some ''12'', Some ''''] \<and>
   Some '''' \<in> set [Some ''12'', Some ''''] \<and>
   to_float (filter (\<lambda>x. x \<noteq> CHR '','') (filter (\<lambda>x. x \<noteq> CHR ''$'') '''')) = None \<and>
   snd (clean_money_columns example_unparseable [''price''] False False True) \<noteq> None \<and>
   snd (clean_money_columns example_money [''price''] False False True) = None \<and>
   map_of (columns (fst (clean_money_columns example_money [''price''] False False True))) ''price''
     = Some (FloatCol [Fin 0, Fin 5, NaN, Fin 0])"
proof -
  have g1: "distinct (names (columns example_money))"
    by (simp add: example_money_def names_def)
  have g2: "(''price'', ObjectCol [Some ''$0'', Some ''$5.00'', None, Some ''$0'']) \<in> set (columns example_money)"
    by (simp add: example_money_def)
  have g4: "str_values (ObjectCol [Some ''$0'', Some ''$5.00'', None, Some ''$0''])
              = Inr [Some ''$0'', Some ''$5.00'', None, Some ''$0'']" by simp
  have g5: "clean_money_columns example_money [''price''] False False True = (example_cleaned, None)"
    by (simp add: example_money_def example_cleaned_def parse_defs money_defs)
  have h1: "distinct (names (columns example_unparseable))"
    by (simp add: example_unparseable_def names_def)
  have h2: "(''price'', ObjectCol [Some ''12'', Some '''']) \<in> set (columns example_unparseable)"
    by (simp add: example_unparseable_def)
  have h3: "''price'' \<in> set [''price'']" by simp
  have h4: "str_values (ObjectCol [Some ''12'', Some '''']) = Inr [Some ''12'', Some '''']" by simp
  have h5: "to_float (filter (\<lambda>x. x \<noteq> CHR '','') (filter (\<lambda>x. x \<noteq> CHR ''$'') '''')) = None"
    by (simp add: parse_defs)
  show ?thesis
    using h1 h2 h3 h4 h5 g5
      unparseable_text_raises_missing_stays_missing[OF h1 h2 h3 h4, of False False True]
      unparseable_text_raises_missing_stays_missing[OF g1 g2 h3 g4, of False False True]
    by (auto simp: example_cleaned_def)
qed

text \<open>
  Claim C2, as stated, fails on its example: with the empty string as third value the call
  raises \<^verbatim>\<open>ValueError\<close> and writes no column (the counterexample below).

  Claim C2, amended. When \<^verbatim>\<open>indicator\<close> is true and the call returns, each money column
  \<open>c\<close> of the dataset has a sibling column \<open>c_ind\<close> that is true exactly where the parsed
  value equals zero, false where it is a nonzero number, and missing where it is missing;
  it is computed from the parsed values, whatever the log and scale flags. For the values
  "$0", "$5.00", missing, "$0" with \<^verbatim>\<open>log=false, scale=false\<close> the indicator column is
  true, false, missing, true and the main column is 0.0, 5.0, missing, 0.0 (the witness).
\<close>

theorem indicator_from_parsed_values:
  assumes "distinct (names (columns ds))" "(c, col) \<in> set (columns ds)" "c \<in> set money_columns"
    "clean_money_columns ds money_columns log' scale True = (ds', None)"
  shows "\<exists>fs. parse_money_column col = Inr fs \<and>
           map_of (columns ds') (c @ ''_ind'') =
             Some (BooleanCol (map (\<lambda>v. if v = NaN then None else Some (v = Fin 0)) fs))"
proof -
  from assms(4) obtain cs' where
    run: "money_loop money_columns log' scale True (names (columns ds)) (columns ds) = (cs', None)"
    and ds': "ds' = ds\<lparr>columns := cs'\<rparr>"
    by (auto simp: clean_money_columns_eq)
  have mc: "map_of (columns ds) c = Some col" using assms(1,2) by (rule map_of_column)
  have cn: "c \<in> set (names (columns ds))" using assms(2) by (rule name_of_column)
  from money_loop_indicator[OF run cn assms(3,1) mc] ds'
  show ?thesis by (simp add: indicator_column_eq)
qed

theorem indicator_from_parsed_values_counterexample:
  "clean_money_columns example_empty_text [''price''] False False True =
     (example_empty_text, Some ValueError)"
  by (simp add: example_empty_text_def parse_defs money_defs)

theorem indicator_from_parsed_values_witness:
  "distinct (names (columns example_money)) \<and>
   (''price'', ObjectCol [Some ''$0'', Some ''$5.00'', None, Some ''$0'']) \<in> set (columns example_money) \<and>
   ''price'' \<in> set [''price''] \<and>
   clean_money_columns example_money [''price''] False False True = (example_cleaned, None) \<and>
   parse_money_column (ObjectCol [Some ''$0'', Some ''$5.00'', None, Some ''$0''])
     = Inr [Fin 0, Fin 5, NaN, Fin 0] \<and>
   map_of (columns example_cleaned) ''price_ind''
     = Some (BooleanCol [Some True, Some False, None, Some True]) \<and>
   map_of (columns example_cleaned) ''price'' = Some (FloatCol [Fin 0, Fin 5, NaN, Fin 0])"
proof -
  have h1: "distinct (names (columns example_money))"
    by (simp add: example_money_def names_def)
  have h2: "(''price'', ObjectCol [Some ''$0'', Some ''$5.00'', None, Some ''$0'']) \<in> set (columns example_money)"
    by (simp add: example_money_def)
  have h3: "''price'' \<in> set [''price'']" by simp
  have h4: "clean_money_columns example_money [''price''] False False True = (example_cleaned, None)"
    by (simp add: example_money_def example_cleaned_def parse_defs money_defs)
  have p: "parse_money_column (ObjectCol [Some ''$0'', Some ''$5.00'', None, Some ''$0''])
     = Inr [Fin 0, Fin 5, NaN, Fin 0]"
    by (simp add: parse_defs money_defs)
  show ?thesis
    using h1 h2 h3 h4 p indicator_from_parsed_values[OF h1 h2 h3 h4]
    by (simp add: example_cleaned_def)
qed

text \<open>
  Claim C3, as stated, fails: the second run raises \<^verbatim>\<open>AttributeError\<close>, because the
  money columns are no longer text and line 32 uses the text accessor (the
  counterexample below).

  Claim C3, amended. After a run of \<open>clean_money_columns\<close> that returned, a second run
  with the same \<^verbatim>\<open>money_columns\<close> and \<^verbatim>\<open>log=false, scale=false\<close> raises
  \<^verbatim>\<open>AttributeError\<close> and changes nothing, whenever the dataset has a column named in
  \<^verbatim>\<open>money_columns\<close>; when it has none, both runs return and change nothing.
\<close>

theorem second_run_raises:
  assumes "clean_money_columns ds money_columns log' scale indicator = (ds1, None)"
  shows "((\<exists>c \<in> set (names (columns ds)). c \<in> set money_columns) \<longrightarrow>
            clean_money_columns ds1 money_columns False False indicator = (ds1, Some AttributeError)) \<and>
         (\<not> (\<exists>c \<in> set (names (columns ds)). c \<in> set money_columns) \<longrightarrow>
            ds1 = ds \<and> clean_money_columns ds1 money_columns False False indicator = (ds1, None))"
proof -
  let ?M = money_columns
  from assms obtain cs1 where
    run: "money_loop ?M log' scale indicator (names (columns ds)) (columns ds) = (cs1, None)"
    and ds1: "ds1 = ds\<lparr>columns := cs1\<rparr>"
    by (auto simp: clean_money_columns_eq)
  have inv: "\<forall>c col. c \<in> set ?M \<and> map_of (columns ds) c = Some col \<and> \<not> isl (str_values col)
               \<longrightarrow> c \<in> set (names (columns ds))"
    by (auto dest: map_of_Some_name)
  have notext: "\<forall>c col. c \<in> set ?M \<and> map_of cs1 c = Some col \<longrightarrow> isl (str_values col)"
    using money_loop_leaves_no_text[OF run inv] by blast
  have second: "money_loop ?M False False indicator (names cs1) cs1 =
           (cs1, if \<exists>c \<in> set (names cs1). c \<in> set ?M then Some AttributeError else None)"
    by (rule money_loop_second_run[OF notext]) simp
  from money_loop_names[OF run] obtain new where
    nm: "names cs1 = names (columns ds) @ new"
    and new: "set new \<subseteq> {m @ ''_ind'' | m. indicator \<and> m \<in> set (names (columns ds)) \<and> m \<in> set ?M}"
    by blast
  have r2: "clean_money_columns ds1 ?M False False indicator =
      (ds1, if \<exists>c \<in> set (names cs1). c \<in> set ?M then Some AttributeError else None)"
    using second by (simp add: clean_money_columns_def ds1)
  show ?thesis
  proof (rule conjI; rule impI)
    assume "\<exists>c \<in> set (names (columns ds)). c \<in> set ?M"
    then have "\<exists>c \<in> set (names cs1). c \<in> set ?M" using nm by auto
    with r2 show "clean_money_columns ds1 ?M False False indicator = (ds1, Some AttributeError)"
      by simp
  next
    assume no: "\<not> (\<exists>c \<in> set (names (columns ds)). c \<in> set ?M)"
    then have "{m @ ''_ind'' | m. indicator \<and> m \<in> set (names (columns ds)) \<and> m \<in> set ?M} = {}"
      by blast
    with new have "set new = {}" by simp
    then have "new = []" by simp
    with nm no have no1: "\<not> (\<exists>c \<in> set (names cs1). c \<in> set ?M)" by simp
    have "money_loop ?M log' scale indicator (names (columns ds)) (columns ds) = (columns ds, None)"
      using money_loop_second_run[of ?M "columns ds" "names (columns ds)" log' scale indicator] no
      by (auto dest: map_of_Some_name)
    with run have "cs1 = columns ds" by simp
    with ds1 have e: "ds1 = ds" by simp
    from r2 no1 have "clean_money_columns ds1 ?M False False indicator = (ds1, None)" by simp
    with e show "ds1 = ds \<and> clean_money_columns ds1 ?M False False indicator = (ds1, None)" by simp
  qed
qed

theorem second_run_raises_counterexample:
  "clean_money_columns example_money [''price''] False False True = (example_cleaned, None) \<and>
   clean_money_columns example_cleaned [''price''] False False True =
     (example_cleaned, Some AttributeError)"
  by (simp add: example_money_def example_cleaned_def parse_defs money_defs)

theorem second_run_raises_witness:
  "clean_money_columns example_money [''price''] False False True = (example_cleaned, None) \<and>
   (\<exists>c \<in> set (names (columns example_money)). c \<in> set [''price'']) \<and>
   clean_money_columns example_cleaned [''price''] False False True =
     (example_cleaned, Some AttributeError) \<and>
   clean_money_columns example_money [''cost''] False False True = (example_money, None) \<and>
   \<not> (\<exists>c \<in> set (names (columns example_money)). c \<in> set [''cost''])"
proof -
  have h: "clean_money_columns example_money [''price''] False False True = (example_cleaned, None)"
    by (simp add: example_money_def example_cleaned_def parse_defs money_defs)
  have g: "clean_money_columns example_money [''cost''] False False True = (example_money, None)"
    by (simp add: example_money_def money_defs)
  have n: "\<exists>c \<in> set (names (columns example_money)). c \<in> set [''price'']"
    by (simp add: example_money_def names_def)
  have n': "\<not> (\<exists>c \<in> set (names (columns example_money)). c \<in> set [''cost''])"
    by (simp add: example_money_def names_def)
  show ?thesis
    using h g n n' second_run_raises[OF h] second_run_raises[OF g]
    by simp
qed

text \<open>
  Claim C7, as stated, fails: a column that is not named in \<^verbatim>\<open>money_columns\<close> but whose
  name is the indicator name of a money column is overwritten when \<^verbatim>\<open>indicator\<close> is
  true (the counterexample below: the text column \<open>price_ind\<close> becomes a boolean column).

  Claim C7, amended. For every dataset and every choice of flags, whether the call
  returns or raises, \<open>clean_money_columns\<close> keeps the index, keeps every column of the
  input under its name and at its position, and appends only columns named
  \<open>m_ind\<close> for a money column \<open>m\<close> of the dataset, and only when \<^verbatim>\<open>indicator\<close> is true.
  Every column that is not named in \<^verbatim>\<open>money_columns\<close> and, when \<^verbatim>\<open>indicator\<close> is true,
  is not named \<open>m_ind\<close> for a money column \<open>m\<close> of the dataset, keeps its values and its
  value kind.
\<close>

theorem clean_money_columns_frame:
  assumes "clean_money_columns ds money_columns log' scale indicator = (ds', err)"
  shows "index ds' = index ds \<and>
         (\<exists>new. names (columns ds') = names (columns ds) @ new \<and>
                set new \<subseteq> {m @ ''_ind'' | m. indicator \<and> m \<in> set (names (columns ds)) \<and>
                                              m \<in> set money_columns}) \<and>
         (\<forall>k. k \<notin> set money_columns \<and>
              \<not> (indicator \<and> (\<exists>m \<in> set (names (columns ds)). m \<in> set money_columns \<and> k = m @ ''_ind''))
              \<longrightarrow> map_of (columns ds') k = map_of (columns ds) k)"
proof -
  from assms obtain cs' where
    run: "money_loop money_columns log' scale indicator (names (columns ds)) (columns ds) = (cs', err)"
    and ds': "ds' = ds\<lparr>columns := cs'\<rparr>"
    by (auto simp: clean_money_columns_eq)
  have a: "index ds' = index ds" using ds' by simp
  have b: "\<exists>new. names (columns ds') = names (columns ds) @ new \<and>
                set new \<subseteq> {m @ ''_ind'' | m. indicator \<and> m \<in> set (names (columns ds)) \<and>
                                              m \<in> set money_columns}"
    using money_loop_names[OF run] ds' by simp
  have c: "map_of (columns ds') k = map_of (columns ds) k"
    if "k \<notin> set money_columns \<and>
        \<not> (indicator \<and> (\<exists>m \<in> set (names (columns ds)). m \<in> set money_columns \<and> k = m @ ''_ind''))" for k
    using money_loop_frame[OF run, of k] that ds' by auto
  from a b c show ?thesis by blast
qed

theorem clean_money_columns_frame_counterexample:
  "''price_ind'' \<notin> set [''price''] \<and>
   map_of (columns example_existing_ind) ''price_ind'' = Some (ObjectCol [Some ''keep'']) \<and>
   clean_money_columns example_existing_ind [''price''] False False True =
     (\<lparr>index = [0], columns =
        [(''price'', FloatCol [Fin 1]), (''price_ind'', BooleanCol [Some False])]\<rparr>, None)"
  by (simp add: example_existing_ind_def parse_defs money_defs)

theorem clean_money_columns_frame_witness:
  "clean_money_columns example_mixed [''price''] True False True =
     (\<lparr>index = [0, 1], columns =
        [(''name'', ObjectCol [Some ''a'', Some ''b'']),
         (''price'', FloatCol [Fin (ln 3), Fin 0]),
         (''count'', IntCol [4, 5]),
         (''price_ind'', BooleanCol [Some False, Some True])]\<rparr>, None) \<and>
   ''name'' \<notin> set [''price''] \<and> ''count'' \<notin> set [''price''] \<and>
   map_of (columns example_mixed) ''name'' = Some (ObjectCol [Some ''a'', Some ''b'']) \<and>
   map_of (columns example_mixed) ''count'' = Some (IntCol [4, 5])"
proof -
  have h: "clean_money_columns example_mixed [''price''] True False True =
     (\<lparr>index = [0, 1], columns =
        [(''name'', ObjectCol [Some ''a'', Some ''b'']),
         (''price'', FloatCol [Fin (ln 3), Fin 0]),
         (''count'', IntCol [4, 5]),
         (''price_ind'', BooleanCol [Some False, Some True])]\<rparr>, None)"
    by (simp add: example_mixed_def parse_defs money_defs)
  show ?thesis
    using h clean_money_columns_frame[OF h]
    by (simp add: example_mixed_def)
qed

text \<open>
  Claim C4. With \<^verbatim>\<open>log=false, scale=false\<close>, when the call returns, every text value of
  a money column is replaced by the float that Python's \<^verbatim>\<open>float\<close> gives for the text
  with every dollar sign and comma removed; for a text in the currency format this float
  is the number the text denotes. The call does return when every money column of the
  dataset holds only missing values and texts in the currency format. The column is the
  one the call leaves under the name; the hypothesis on the indicator names says that no
  money column of the dataset is named as the indicator column of another.
\<close>

theorem currency_text_to_float:
  assumes "distinct (names (columns ds))"
    "indicator \<longrightarrow> (\<forall>m \<in> set (names (columns ds)). \<forall>n \<in> set (names (columns ds)).
                     m \<in> set money_columns \<and> n \<in> set money_columns \<longrightarrow> m @ ''_ind'' \<noteq> n)"
  shows "((\<forall>(n, col) \<in> set (columns ds). n \<in> set money_columns \<longrightarrow>
             (\<exists>ws. str_values col = Inr ws \<and> (\<forall>t. Some t \<in> set ws \<longrightarrow> is_currency t))) \<longrightarrow>
          snd (clean_money_columns ds money_columns False False indicator) = None) \<and>
         (snd (clean_money_columns ds money_columns False False indicator) = None \<longrightarrow>
          (\<forall>(c, col) \<in> set (columns ds). c \<in> set money_columns \<longrightarrow>
             (\<exists>vs fs. str_values col = Inr vs \<and>
                map_of (columns (fst (clean_money_columns ds money_columns False False indicator))) c
                  = Some (FloatCol fs) \<and>
                length fs = length vs \<and>
                (\<forall>j < length vs. \<forall>t. vs ! j = Some t \<longrightarrow>
                   to_float (filter (\<lambda>x. x \<noteq> CHR '','') (filter (\<lambda>x. x \<noteq> CHR ''$'') t)) = Some (fs ! j) \<and>
                   (is_currency t \<longrightarrow> fs ! j = Fin (currency_value t))))))"
proof (rule conjI; rule impI)
  let ?ns = "names (columns ds)"
  let ?M = money_columns
  assume cur: "\<forall>(n, col) \<in> set (columns ds). n \<in> set ?M \<longrightarrow>
             (\<exists>ws. str_values col = Inr ws \<and> (\<forall>t. Some t \<in> set ws \<longrightarrow> is_currency t))"
  have ok: "\<forall>n \<in> set ?ns. n \<in> set ?M \<longrightarrow>
              (\<exists>col fs. map_of (columns ds) n = Some col \<and> parse_money_column col = Inr fs)"
  proof (intro ballI impI)
    fix n assume n: "n \<in> set ?ns" "n \<in> set ?M"
    then obtain col where c: "(n, col) \<in> set (columns ds)" by (auto simp: names_def)
    with cur n(2) obtain ws where "str_values col = Inr ws" "\<forall>t. Some t \<in> set ws \<longrightarrow> is_currency t"
      by blast
    from parse_money_column_currency[OF this] obtain fs where "parse_money_column col = Inr fs" by blast
    with map_of_column[OF assms(1) c]
    show "\<exists>col fs. map_of (columns ds) n = Some col \<and> parse_money_column col = Inr fs" by blast
  qed
  from money_loop_completes[OF assms(1) ok assms(2)]
  show "snd (clean_money_columns ds ?M False False indicator) = None"
    by (simp add: snd_clean_money_columns)
next
  let ?ns = "names (columns ds)"
  let ?M = money_columns
  let ?r = "clean_money_columns ds ?M False False indicator"
  assume ret: "snd ?r = None"
  then have run: "?r = (fst ?r, None)" by (metis prod.collapse)
  show "\<forall>(c, col) \<in> set (columns ds). c \<in> set ?M \<longrightarrow>
             (\<exists>vs fs. str_values col = Inr vs \<and>
                map_of (columns (fst ?r)) c = Some (FloatCol fs) \<and>
                length fs = length vs \<and>
                (\<forall>j < length vs. \<forall>t. vs ! j = Some t \<longrightarrow>
                   to_float (filter (\<lambda>x. x \<noteq> CHR '','') (filter (\<lambda>x. x \<noteq> CHR ''$'') t)) = Some (fs ! j) \<and>
                   (is_currency t \<longrightarrow> fs ! j = Fin (currency_value t))))"
  proof (intro ballI, clarify)
    fix c col assume c: "(c, col) \<in> set (columns ds)" "c \<in> set ?M"
    have cn: "c \<in> set ?ns" using c(1) by (rule name_of_column)
    have fresh: "indicator \<longrightarrow> (\<forall>m \<in> set ?ns. m \<in> set ?M \<longrightarrow> m @ ''_ind'' \<noteq> c)"
      using assms(2) cn c(2) by blast
    from money_column_result[OF assms(1) c run fresh] obtain fs where
      p: "parse_money_column col = Inr fs" and
      f: "map_of (columns (fst ?r)) c = Some (FloatCol (transform_column False False fs))" by blast
    from parse_money_column_text[OF p] obtain vs where vs: "str_values col = Inr vs" by blast
    from parse_money_column_Inr[OF vs p] have
      mp: "map (\<lambda>v. value_to_float (map_option (\<lambda>t. filter (\<lambda>x. x \<noteq> CHR '','') (filter (\<lambda>x. x \<noteq> CHR ''$'') t)) v)) vs
           = map Some fs" .
    then have len: "length fs = length vs" by (metis length_map)
    have val: "to_float (filter (\<lambda>x. x \<noteq> CHR '','') (filter (\<lambda>x. x \<noteq> CHR ''$'') t)) = Some (fs ! j)"
      if "j < length vs" "vs ! j = Some t" for j t
    proof -
      from mp that(1) len have "value_to_float (map_option (\<lambda>t. filter (\<lambda>x. x \<noteq> CHR '','') (filter (\<lambda>x. x \<noteq> CHR ''$'') t)) (vs ! j)) = Some (fs ! j)"
        by (metis nth_map)
      with that(2) show ?thesis by simp
    qed
    have cur: "fs ! j = Fin (currency_value t)"
      if "j < length vs" "vs ! j = Some t" "is_currency t" for j t
      using val[OF that(1,2)] to_float_currency[OF that(3)] by simp
    have tf: "transform_column False False fs = fs" by (simp add: transform_column_def)
    show "\<exists>vs fs. str_values col = Inr vs \<and>
                map_of (columns (fst ?r)) c = Some (FloatCol fs) \<and>
                length fs = length vs \<and>
                (\<forall>j < length vs. \<forall>t. vs ! j = Some t \<longrightarrow>
                   to_float (filter (\<lambda>x. x \<noteq> CHR '','') (filter (\<lambda>x. x \<noteq> CHR ''$'') t)) = Some (fs ! j) \<and>
                   (is_currency t \<longrightarrow> fs ! j = Fin (currency_value t)))"
      using vs f tf len val cur by (intro exI[of _ vs] exI[of _ fs]) auto
  qed
qed

theorem currency_text_to_float_witness:
  "distinct (names (columns example_currency)) \<and>
   is_currency ''$1,234.50'' \<and> is_currency ''12'' \<and>
   currency_value ''$1,234.50'' = 1234.5 \<and> currency_value ''12'' = 12 \<and>
   clean_money_columns example_currency [''price''] False False True =
     (\<lparr>index = [0, 1, 2], columns =
        [(''id'', IntCol [1, 2, 3]),
         (''price'', FloatCol [Fin 1234.5, Fin 12, NaN]),
         (''price_ind'', BooleanCol [Some False, Some False, None])]\<rparr>, None)"
proof -
  have h1: "distinct (names (columns example_currency))"
    by (simp add: example_currency_def names_def)
  have h2: "True \<longrightarrow> (\<forall>m \<in> set (names (columns example_currency)).
                \<forall>n \<in> set (names (columns example_currency)).
                  m \<in> set [''price''] \<and> n \<in> set [''price''] \<longrightarrow> m @ ''_ind'' \<noteq> n)"
    by (simp add: example_currency_def names_def)
  have c1: "is_currency ''$1,234.50''" and c2: "is_currency ''12''"
    by (simp_all add: is_currency_def is_digit_def)
  have v1: "currency_value ''$1,234.50'' = 1234.5" and v2: "currency_value ''12'' = 12"
    by (simp_all add: currency_value_def decimal_value_def is_digit_def digits_val_def digit_val_def)
  have h3: "\<forall>(n, col) \<in> set (columns example_currency). n \<in> set [''price''] \<longrightarrow>
             (\<exists>ws. str_values col = Inr ws \<and> (\<forall>t. Some t \<in> set ws \<longrightarrow> is_currency t))"
    using c1 c2 by (auto simp: example_currency_def)
  have r: "clean_money_columns example_currency [''price''] False False True =
     (\<lparr>index = [0, 1, 2], columns =
        [(''id'', IntCol [1, 2, 3]),
         (''price'', FloatCol [Fin 1234.5, Fin 12, NaN]),
         (''price_ind'', BooleanCol [Some False, Some False, None])]\<rparr>, None)"
    by (simp add: example_currency_def parse_defs money_defs)
  show ?thesis
    using h1 h3 c1 c2 v1 v2 r currency_text_to_float[OF h1 h2]
    by simp
qed

text \<open>
  Claim C5. When \<^verbatim>\<open>scale\<close> is true and the call returns, each money column holds the
  scaling of its values as they are after the log step (taken when \<^verbatim>\<open>log\<close> is true):
  each non-missing value \<open>v\<close> becomes \<open>(v - mean) / stddev\<close>, with the mean and the sample
  standard deviation (\<^verbatim>\<open>ddof=1\<close>) of the non-missing values, and a missing value stays
  missing. The formula is stated where the specification defines it: the non-missing
  values are finite, there are at least two of them, and their standard deviation is not
  zero. The column is the one the call leaves under the name, for a name that is not the
  indicator name of a money column of the dataset. For the values 1.0, 2.0, 3.0 the
  result is -1.0, 0.0, 1.0 (the witness).
\<close>

theorem scale_transform:
  assumes "distinct (names (columns ds))" "(c, col) \<in> set (columns ds)" "c \<in> set money_columns"
    "clean_money_columns ds money_columns log' True indicator = (ds', None)"
    "indicator \<longrightarrow> (\<forall>m \<in> set (names (columns ds)). m \<in> set money_columns \<longrightarrow> m @ ''_ind'' \<noteq> c)"
  shows "\<exists>fs gs. parse_money_column col = Inr fs \<and>
           gs = (if log' then log_column fs else fs) \<and>
           map_of (columns ds') c = Some (FloatCol (scale_column gs)) \<and>
           (\<forall>rs. filter (\<lambda>v. \<not> isna v) gs = map Fin rs \<and> 2 \<le> length rs \<and> spec_sample_std rs \<noteq> 0 \<longrightarrow>
              scale_column gs =
                map (\<lambda>v. case v of Fin r \<Rightarrow> Fin ((r - spec_mean rs) / spec_sample_std rs) | _ \<Rightarrow> NaN) gs)"
proof -
  from money_column_result[OF assms] obtain fs where
    p: "parse_money_column col = Inr fs" and
    f: "map_of (columns ds') c = Some (FloatCol (transform_column log' True fs))" by blast
  have t: "transform_column log' True fs = scale_column (if log' then log_column fs else fs)"
    by (simp add: transform_column_def)
  show ?thesis
    using p f t scale_column_spec by auto
qed

theorem scale_transform_witness:
  "distinct (names (columns example_scale)) \<and>
   (''price'', ObjectCol [Some ''1.0'', Some ''2.0'', Some ''3.0'']) \<in> set (columns example_scale) \<and>
   ''price'' \<in> set [''price''] \<and>
   clean_money_columns example_scale [''price''] False True False =
     (\<lparr>index = [0, 1, 2], columns = [(''price'', FloatCol [Fin (- 1), Fin 0, Fin 1])]\<rparr>, None) \<and>
   parse_money_column (ObjectCol [Some ''1.0'', Some ''2.0'', Some ''3.0'']) = Inr [Fin 1, Fin 2, Fin 3] \<and>
   spec_mean [1, 2, 3] = 2 \<and> spec_sample_std [1, 2, 3] = 1 \<and>
   scale_column [Fin 1, Fin 2, Fin 3] = [Fin (- 1), Fin 0, Fin 1]"
proof -
  have h1: "distinct (names (columns example_scale))"
    by (simp add: example_scale_def names_def)
  have h2: "(''price'', ObjectCol [Some ''1.0'', Some ''2.0'', Some ''3.0'']) \<in> set (columns example_scale)"
    by (simp add: example_scale_def)
  have h3: "''price'' \<in> set [''price'']" by simp
  have h4: "clean_money_columns example_scale [''price''] False True False =
     (\<lparr>index = [0, 1, 2], columns = [(''price'', FloatCol [Fin (- 1), Fin 0, Fin 1])]\<rparr>, None)"
    by (simp add: example_scale_def parse_defs money_defs)
  have h5: "False \<longrightarrow> (\<forall>m \<in> set (names (columns example_scale)). m \<in> set [''price''] \<longrightarrow> m @ ''_ind'' \<noteq> ''price'')"
    by simp
  have p: "parse_money_column (ObjectCol [Some ''1.0'', Some ''2.0'', Some ''3.0'']) = Inr [Fin 1, Fin 2, Fin 3]"
    by (simp add: parse_defs money_defs)
  have m: "spec_mean [1, 2, 3] = 2" by (simp add: spec_mean_def)
  have s: "spec_sample_std [1, 2, 3] = 1" by (simp add: spec_sample_std_def m)
  have sc: "scale_column [Fin 1, Fin 2, Fin 3] = [Fin (- 1), Fin 0, Fin 1]"
    by (simp add: money_defs)
  show ?thesis
    using h1 h2 h3 h4 p m s sc scale_transform[OF h1 h2 h3 h4 h5]
    by simp
qed

text \<open>
  Claim C6. When \<^verbatim>\<open>log\<close> is true and the call returns, each money column holds, before
  the optional scaling, the logarithm \<open>ln (v + 1)\<close> of each parsed value \<open>v\<close> (for
  \<open>v + 1 > 0\<close>, where the logarithm is defined), and a missing value stays missing. The
  column is the one the call leaves under the name, for a name that is not the indicator
  name of a money column of the dataset. The input "$0", "$1" with \<^verbatim>\<open>log=true\<close> yields
  \<open>ln 1\<close>, \<open>ln 2\<close> (the witness).
\<close>

theorem log_transform:
  assumes "distinct (names (columns ds))" "(c, col) \<in> set (columns ds)" "c \<in> set money_columns"
    "clean_money_columns ds money_columns True scale indicator = (ds', None)"
    "indicator \<longrightarrow> (\<forall>m \<in> set (names (columns ds)). m \<in> set money_columns \<longrightarrow> m @ ''_ind'' \<noteq> c)"
  shows "\<exists>fs. parse_money_column col = Inr fs \<and>
           map_of (columns ds') c =
             Some (FloatCol (if scale then scale_column (log_column fs) else log_column fs)) \<and>
           length (log_column fs) = length fs \<and>
           (\<forall>j < length fs.
              (fs ! j = NaN \<longrightarrow> log_column fs ! j = NaN) \<and>
              (\<forall>v. fs ! j = Fin v \<and> 0 < v + 1 \<longrightarrow> log_column fs ! j = Fin (ln (v + 1))))"
proof -
  from money_column_result[OF assms] obtain fs where
    p: "parse_money_column col = Inr fs" and
    f: "map_of (columns ds') c = Some (FloatCol (transform_column True scale fs))" by blast
  have "transform_column True scale fs = (if scale then scale_column (log_column fs) else log_column fs)"
    by (simp add: transform_column_def)
  with p f log_column_nth[of _ fs] show ?thesis
    by (auto simp: log_column_def)
qed

theorem log_transform_witness:
  "distinct (names (columns example_log)) \<and>
   (''price'', ObjectCol [Some ''$0'', Some ''$1'']) \<in> set (columns example_log) \<and>
   ''price'' \<in> set [''price''] \<and>
   clean_money_columns example_log [''price''] True False True =
     (\<lparr>index = [0, 1], columns =
        [(''price'', FloatCol [Fin (ln 1), Fin (ln 2)]),
         (''price_ind'', BooleanCol [Some True, Some False])]\<rparr>, None) \<and>
   parse_money_column (ObjectCol [Some ''$0'', Some ''$1'']) = Inr [Fin 0, Fin 1] \<and>
   log_column [Fin 0, Fin 1] = [Fin (ln (0 + 1)), Fin (ln (1 + 1))]"
proof -
  have h1: "distinct (names (columns example_log))"
    by (simp add: example_log_def names_def)
  have h2: "(''price'', ObjectCol [Some ''$0'', Some ''$1'']) \<in> set (columns example_log)"
    by (simp add: example_log_def)
  have h3: "''price'' \<in> set [''price'']" by simp
  have h4: "clean_money_columns example_log [''price''] True False True =
     (\<lparr>index = [0, 1], columns =
        [(''price'', FloatCol [Fin (ln 1), Fin (ln 2)]),
         (''price_ind'', BooleanCol [Some True, Some False])]\<rparr>, None)"
    by (simp add: example_log_def parse_defs money_defs)
  have h5: "True \<longrightarrow> (\<forall>m \<in> set (names (columns example_log)). m \<in> set [''price''] \<longrightarrow> m @ ''_ind'' \<noteq> ''price'')"
    by (simp add: example_log_def names_def)
  have p: "parse_money_column (ObjectCol [Some ''$0'', Some ''$1'']) = Inr [Fin 0, Fin 1]"
    by (simp add: parse_defs money_defs)
  have l: "log_column [Fin 0, Fin 1] = [Fin (ln (0 + 1)), Fin (ln (1 + 1))]"
    by (simp add: log_column_def eps_def)
  show ?thesis
    using h1 h2 h3 h4 p l log_transform[OF h1 h2 h3 h4 h5]
    by simp
qed

end
